theory Spec2Isabelle
  imports Complex_Main "HOL-Library.Stream"
begin

section \<open>The random source\<close>

text \<open>
  The generator of \<^verbatim>\<open>src/generador/laberinto.py\<close> draws every random choice from
  Python's module \<^verbatim>\<open>random\<close>. The source of randomness is modelled as an arbitrary
  infinite stream of raw draws, threaded through every stage: a statement quantified
  over all streams covers every sequence of outcomes the library can produce.
  \<^verbatim>\<open>randbelow(n)\<close> is a raw draw reduced below \<open>n\<close>; \<^verbatim>\<open>random()\<close> is a 53-bit
  integer over \<open>2^53\<close>, as in CPython. The parameters \<^verbatim>\<open>complejidad\<close> and
  \<^verbatim>\<open>densidad\<close> range over the real numbers, the doubles among them. The branch
  factor of the second stage and the product that \<^verbatim>\<open>int()\<close> truncates to a count
  are computed in binary64; the threshold of the cycle stage, which is only compared
  with a draw of \<^verbatim>\<open>random()\<close>, is the real number \<open>densidad * 0.15\<close>.
\<close>

type_synonym rng = "nat stream"

datatype error = ValueError

definition randbelow :: "nat \<Rightarrow> rng \<Rightarrow> nat \<times> rng" where
  "randbelow n g = (shd g mod n, stl g)"

text \<open>\<^verbatim>\<open>random.randrange(start, stop, step)\<close> for a positive step: the empty range raises.\<close>

definition randrange :: "int \<Rightarrow> int \<Rightarrow> int \<Rightarrow> rng \<Rightarrow> error + (int \<times> rng)" where
  "randrange start stop step g =
     (let n = (stop - start + step - 1) div step in
      if n \<le> 0 then Inl ValueError
      else (case randbelow (nat n) g of (k, g') \<Rightarrow> Inr (start + step * int k, g')))"

text \<open>\<^verbatim>\<open>random.randint(a, b)\<close>; the source calls it with \<open>a = 1\<close>, \<open>b = 3\<close> only,
  where the range is not empty.\<close>

definition randint :: "int \<Rightarrow> int \<Rightarrow> rng \<Rightarrow> int \<times> rng" where
  "randint a b g = (case randbelow (nat (b - a + 1)) g of (k, g') \<Rightarrow> (a + int k, g'))"

definition random_py :: "rng \<Rightarrow> real \<times> rng" where
  "random_py g = (real (shd g mod 2 ^ 53) / 2 ^ 53, stl g)"

text \<open>\<^verbatim>\<open>random.shuffle(x)\<close>: for \<open>i\<close> from \<open>len(x) - 1\<close> down to \<open>1\<close>, swap
  \<open>x[i]\<close> with \<open>x[randbelow(i + 1)]\<close>.\<close>

fun shuffle_desde :: "nat \<Rightarrow> 'a list \<Rightarrow> rng \<Rightarrow> 'a list \<times> rng" where
  "shuffle_desde 0 xs g = (xs, g)"
| "shuffle_desde (Suc i) xs g =
     (case randbelow (Suc (Suc i)) g of
        (j, g') \<Rightarrow> shuffle_desde i (xs[Suc i := xs ! j, j := xs ! Suc i]) g')"

definition shuffle :: "'a list \<Rightarrow> rng \<Rightarrow> 'a list \<times> rng" where
  "shuffle xs g = shuffle_desde (length xs - 1) xs g"

section \<open>The grid\<close>

text \<open>
  A cell is a pair (row, column). The NumPy matrix (0 = path, 1 = wall) is a function
  from cells to numbers; a write \<^verbatim>\<open>self.matriz[i, j] = 0\<close> is a function update.
  The model's matrix has no bounds of its own: that every write of the generator lands
  inside the \<open>filas \<times> columnas\<close> array is a theorem below (every path cell of a
  generated maze is interior), not an assumption.
\<close>

type_synonym celda = "int \<times> int"
type_synonym matriz = "celda \<Rightarrow> nat"
type_synonym vecino = "int \<times> int \<times> int \<times> int"
type_synonym bifurcacion = "int \<times> int \<times> vecino list"

record laberinto =
  filas :: int
  columnas :: int
  matriz :: matriz
  inicio :: celda
  meta :: celda

definition en_rango :: "int \<Rightarrow> int \<Rightarrow> celda \<Rightarrow> bool" where
  "en_rango F C c = (0 \<le> fst c \<and> fst c < F \<and> 0 \<le> snd c \<and> snd c < C)"

definition es_pared :: "laberinto \<Rightarrow> int \<Rightarrow> int \<Rightarrow> bool" where
  "es_pared L fila columna =
     (if fila < 0 \<or> fila \<ge> filas L \<or> columna < 0 \<or> columna \<ge> columnas L then True
      else matriz L (fila, columna) = 1)"

definition es_meta :: "laberinto \<Rightarrow> int \<Rightarrow> int \<Rightarrow> bool" where
  "es_meta L fila columna = ((fila, columna) = meta L)"

section \<open>Stage 1: the randomized depth-first carver\<close>

text \<open>The unvisited neighbours two cells away, in the order of the shuffled directions,
  each with the offset of the wall between (\<open>dx // 2\<close>, \<open>dy // 2\<close>).\<close>

definition libre :: "int \<Rightarrow> int \<Rightarrow> celda set \<Rightarrow> int \<Rightarrow> int \<Rightarrow> int \<times> int \<Rightarrow> bool" where
  "libre F C visitadas x y d =
     (1 \<le> x + fst d \<and> x + fst d < F - 1 \<and> 1 \<le> y + snd d \<and> y + snd d < C - 1
      \<and> (x + fst d, y + snd d) \<notin> visitadas)"

definition vecinos_libres ::
  "int \<Rightarrow> int \<Rightarrow> celda set \<Rightarrow> int \<Rightarrow> int \<Rightarrow> (int \<times> int) list \<Rightarrow> vecino list" where
  "vecinos_libres F C visitadas x y direcciones =
     map (\<lambda>(dx, dy). (x + dx, y + dy, dx div 2, dy div 2))
         (filter (libre F C visitadas x y) direcciones)"

definition interior :: "int \<Rightarrow> int \<Rightarrow> celda set" where
  "interior F C = {1..<F - 1} \<times> {1..<C - 1}"

lemma vecinos_libres_Cons:
  assumes "vecinos_libres F C vis x y ds = (nx, ny, wx, wy) # otros"
  shows "(nx, ny) \<in> interior F C - vis"
proof -
  have "(nx, ny, wx, wy) \<in> set (vecinos_libres F C vis x y ds)"
    using assms by simp
  then show ?thesis
    by (auto simp: vecinos_libres_def libre_def interior_def)
qed

lemma card_interior_pos:
  assumes "c \<in> interior F C" "c \<notin> vis"
  shows "0 < card (interior F C - vis)"
proof -
  have "finite (interior F C - vis)"
    by (simp add: interior_def)
  moreover have "c \<in> interior F C - vis"
    using assms by simp
  ultimately show ?thesis
    by (auto simp: card_gt_0_iff)
qed

text \<open>The \<^verbatim>\<open>while pila:\<close> loop of \<^verbatim>\<open>_generar\<close>. The stack is kept top first (its
  head is \<^verbatim>\<open>pila[-1]\<close>); the list of directions is shuffled in place at every
  iteration, so it is part of the loop state.\<close>

function bucle_dfs ::
  "int \<Rightarrow> int \<Rightarrow> matriz \<Rightarrow> celda list \<Rightarrow> celda set \<Rightarrow> bifurcacion list \<Rightarrow> (int \<times> int) list \<Rightarrow> rng
     \<Rightarrow> matriz \<times> celda set \<times> bifurcacion list \<times> rng" where
  "bucle_dfs F C m [] visitadas bifurcaciones direcciones g = (m, visitadas, bifurcaciones, g)"
| "bucle_dfs F C m ((x, y) # resto) visitadas bifurcaciones direcciones g =
     (case shuffle direcciones g of
        (dirs, g') \<Rightarrow>
          (case vecinos_libres F C visitadas x y dirs of
             [] \<Rightarrow> bucle_dfs F C m resto visitadas bifurcaciones dirs g'
           | (nx, ny, wx, wy) # otros \<Rightarrow>
               bucle_dfs F C (m((x + wx, y + wy) := 0, (nx, ny) := 0))
                 ((nx, ny) # (x, y) # resto) (insert (nx, ny) visitadas)
                 (if otros \<noteq> [] then bifurcaciones @ [(x, y, otros)] else bifurcaciones)
                 dirs g'))"
  by pat_completeness auto
termination
  apply (relation "measures [\<lambda>(F, C, m, pila, vis, bifs, dirs, g). card (interior F C - vis),
                            \<lambda>(F, C, m, pila, vis, bifs, dirs, g). length pila]")
    apply simp
   apply simp
  apply (auto dest!: vecinos_libres_Cons simp: card_interior_pos)
  done

section \<open>Stage 2: dead ends from the recorded branch points\<close>

text \<open>\<^verbatim>\<open>_crear_callejon\<close>: the directions are shuffled once; each of the
  \<^verbatim>\<open>longitud\<close> rounds takes the first direction that leads to an unvisited cell
  inside the border, and the loop stops when there is none (\<^verbatim>\<open>for ... else: break\<close>).\<close>

fun callejon_bucle ::
  "int \<Rightarrow> int \<Rightarrow> (int \<times> int) list \<Rightarrow> nat \<Rightarrow> int \<Rightarrow> int \<Rightarrow> matriz \<Rightarrow> celda set \<Rightarrow> matriz \<times> celda set" where
  "callejon_bucle F C dirs 0 x y m visitadas = (m, visitadas)"
| "callejon_bucle F C dirs (Suc k) x y m visitadas =
     (case find (libre F C visitadas x y) dirs of
        None \<Rightarrow> (m, visitadas)
      | Some (dx, dy) \<Rightarrow>
          callejon_bucle F C dirs k (x + dx) (y + dy)
            (m((x + dx div 2, y + dy div 2) := 0, (x + dx, y + dy) := 0))
            (insert (x + dx, y + dy) visitadas))"

definition crear_callejon ::
  "int \<Rightarrow> int \<Rightarrow> int \<Rightarrow> int \<Rightarrow> int \<Rightarrow> matriz \<Rightarrow> celda set \<Rightarrow> rng \<Rightarrow> matriz \<times> celda set \<times> rng" where
  "crear_callejon F C x y longitud m visitadas g =
     (case shuffle [(-2, 0), (0, 2), (2, 0), (0, -2)] g of
        (dirs, g') \<Rightarrow>
          (case callejon_bucle F C dirs (nat longitud) x y m visitadas of
             (m', visitadas') \<Rightarrow> (m', visitadas', g')))"

text \<open>
  Python's floats are IEEE 754 binary64 numbers. \<open>doble x\<close> is the double nearest to
  the real \<open>x\<close>: 53 significant bits, ties to the even significand, and the spacing
  \<open>2^-1074\<close> of the subnormal numbers below \<open>2^-1022\<close>. A literal denotes the double
  nearest to it, an arithmetic operation on doubles returns \<open>doble\<close> of its exact
  result, and \<^verbatim>\<open>int * float\<close> converts the integer to a double first. Overflow to
  infinity is left out: the products formed below are bounded by the length of a list.
\<close>

definition redondeo_par :: "real \<Rightarrow> int" where
  "redondeo_par x =
     (if x - of_int \<lfloor>x\<rfloor> < 1 / 2 then \<lfloor>x\<rfloor>
      else if 1 / 2 < x - of_int \<lfloor>x\<rfloor> then \<lfloor>x\<rfloor> + 1
      else if even \<lfloor>x\<rfloor> then \<lfloor>x\<rfloor> else \<lfloor>x\<rfloor> + 1)"

definition exponente :: "real \<Rightarrow> int" where
  "exponente x = max \<lfloor>log 2 \<bar>x\<bar>\<rfloor> (- 1022)"

definition doble :: "real \<Rightarrow> real" where
  "doble x =
     (if x = 0 then 0
      else of_int (redondeo_par (x / 2 powr (of_int (exponente x) - 52)))
             * 2 powr (of_int (exponente x) - 52))"

text \<open>Python's \<^verbatim>\<open>int(x)\<close> on a float truncates towards zero.\<close>

definition truncar :: "real \<Rightarrow> int" where
  "truncar x = (if 0 \<le> x then \<lfloor>x\<rfloor> else \<lceil>x\<rceil>)"

text \<open>\<^verbatim>\<open>factor_ramificacion = min(0.3, self.complejidad * 0.4)\<close>, on doubles.\<close>

definition factor_ramificacion :: "real \<Rightarrow> real" where
  "factor_ramificacion complejidad = min (doble (3 / 10)) (doble (complejidad * doble (4 / 10)))"

text \<open>The candidates the loop \<^verbatim>\<open>for i in range(min(num_bifurcaciones, len(bifurcaciones)))\<close>
  of \<^verbatim>\<open>_agregar_complejidad\<close> visits: the first ones of the shuffled list, where
  \<^verbatim>\<open>num_bifurcaciones = int(len(bifurcaciones) * factor_ramificacion)\<close> truncates the
  product of two doubles.\<close>

definition bifurcaciones_elegidas :: "bifurcacion list \<Rightarrow> real \<Rightarrow> bifurcacion list" where
  "bifurcaciones_elegidas barajadas factor =
     (let num_bifurcaciones = truncar (doble (doble (real (length barajadas)) * factor))
      in take (nat (min num_bifurcaciones (int (length barajadas)))) barajadas)"

fun procesar_bifurcaciones ::
  "int \<Rightarrow> int \<Rightarrow> bifurcacion list \<Rightarrow> matriz \<Rightarrow> celda set \<Rightarrow> rng \<Rightarrow> matriz \<times> celda set \<times> rng" where
  "procesar_bifurcaciones F C [] m visitadas g = (m, visitadas, g)"
| "procesar_bifurcaciones F C ((x, y, vecinos) # resto) m visitadas g =
     (case vecinos of
        [] \<Rightarrow> procesar_bifurcaciones F C resto m visitadas g
      | (nx, ny, wx, wy) # _ \<Rightarrow>
          if (nx, ny) \<notin> visitadas then
            (case randint 1 3 g of
               (longitud, g1) \<Rightarrow>
                 (case crear_callejon F C nx ny longitud
                         (m((x + wx, y + wy) := 0, (nx, ny) := 0)) visitadas g1 of
                    (m2, visitadas2, g2) \<Rightarrow> procesar_bifurcaciones F C resto m2 visitadas2 g2))
          else procesar_bifurcaciones F C resto m visitadas g)"

definition agregar_complejidad ::
  "int \<Rightarrow> int \<Rightarrow> matriz \<Rightarrow> celda set \<Rightarrow> bifurcacion list \<Rightarrow> real \<Rightarrow> rng \<Rightarrow> matriz \<times> celda set \<times> rng" where
  "agregar_complejidad F C m visitadas bifurcaciones factor g =
     (case shuffle bifurcaciones g of
        (barajadas, g') \<Rightarrow>
          procesar_bifurcaciones F C (bifurcaciones_elegidas barajadas factor) m visitadas g')"

section \<open>Stage 3: cycles\<close>

text \<open>\<^verbatim>\<open>range(2, stop, 2)\<close>.\<close>

definition rango_par :: "int \<Rightarrow> int list" where
  "rango_par stop = filter even [2..stop - 1]"

definition celdas_ciclos :: "int \<Rightarrow> int \<Rightarrow> celda list" where
  "celdas_ciclos F C = List.product (rango_par (F - 2)) (rango_par (C - 2))"

text \<open>The double loop of \<^verbatim>\<open>_crear_ciclos\<close> over its cells in row-major order.
  \<^verbatim>\<open>random.random()\<close> is drawn only for a wall that qualifies: Python's \<^verbatim>\<open>and\<close>
  does not evaluate its right operand otherwise.\<close>

fun ciclos_bucle :: "real \<Rightarrow> celda list \<Rightarrow> matriz \<Rightarrow> rng \<Rightarrow> matriz \<times> rng" where
  "ciclos_bucle probabilidad [] m g = (m, g)"
| "ciclos_bucle probabilidad ((i, j) # cs) m g =
     (if m (i, j) = 1 then
        (let es_horizontal = (m (i - 1, j) = 0 \<and> m (i + 1, j) = 0);
             es_vertical = (m (i, j - 1) = 0 \<and> m (i, j + 1) = 0)
         in if es_horizontal \<or> es_vertical then
              (case random_py g of
                 (u, g') \<Rightarrow>
                   if u < probabilidad then ciclos_bucle probabilidad cs (m((i, j) := 0)) g'
                   else ciclos_bucle probabilidad cs m g')
            else ciclos_bucle probabilidad cs m g)
      else ciclos_bucle probabilidad cs m g)"

section \<open>Stage 4: start and goal\<close>

text \<open>Python's \<^verbatim>\<open>min(xs, key=f)\<close> and \<^verbatim>\<open>max(xs, key=f)\<close> return the first element
  with the least (greatest) key. The source calls them on lists it has checked to be
  non-empty.\<close>

fun min_clave :: "('a \<Rightarrow> int) \<Rightarrow> 'a \<Rightarrow> 'a list \<Rightarrow> 'a" where
  "min_clave f mejor [] = mejor"
| "min_clave f mejor (x # xs) = min_clave f (if f x < f mejor then x else mejor) xs"

fun max_clave :: "('a \<Rightarrow> int) \<Rightarrow> 'a \<Rightarrow> 'a list \<Rightarrow> 'a" where
  "max_clave f mejor [] = mejor"
| "max_clave f mejor (x # xs) = max_clave f (if f mejor < f x then x else mejor) xs"

fun py_min :: "('a \<Rightarrow> int) \<Rightarrow> 'a list \<Rightarrow> 'a" where
  "py_min f (x # xs) = min_clave f x xs"

fun py_max :: "('a \<Rightarrow> int) \<Rightarrow> 'a list \<Rightarrow> 'a" where
  "py_max f (x # xs) = max_clave f x xs"

definition caminos_interiores :: "int \<Rightarrow> int \<Rightarrow> matriz \<Rightarrow> celda list" where
  "caminos_interiores F C m = filter (\<lambda>c. m c = 0) (List.product [1..F - 2] [1..C - 2])"

definition candidatos_inicio :: "int \<Rightarrow> int \<Rightarrow> celda list \<Rightarrow> celda list" where
  "candidatos_inicio F C caminos =
     (let mitad_fila = F div 2; mitad_columna = C div 2;
          c1 = filter (\<lambda>(i, j). i < mitad_fila \<and> j < mitad_columna) caminos;
          c2 = (if c1 = [] then filter (\<lambda>(i, j). j < mitad_columna) caminos else c1)
      in if c2 = [] then caminos else c2)"

definition candidatos_meta :: "int \<Rightarrow> int \<Rightarrow> celda list \<Rightarrow> celda \<Rightarrow> celda list" where
  "candidatos_meta F C caminos ini =
     (let mitad_fila = F div 2; mitad_columna = C div 2;
          c1 = filter (\<lambda>(i, j). i \<ge> mitad_fila \<and> j \<ge> mitad_columna
                          \<and> \<bar>i - fst ini\<bar> + \<bar>j - snd ini\<bar> > max F C div 2) caminos;
          c2 = (if c1 = [] then filter (\<lambda>(i, j). j \<ge> mitad_columna \<and> (i, j) \<noteq> ini) caminos else c1)
      in if c2 = [] then filter (\<lambda>pos. pos \<noteq> ini) caminos else c2)"

text \<open>\<^verbatim>\<open>_establecer_inicio_meta\<close> returns the matrix, the start and the goal.\<close>

definition establecer_inicio_meta :: "int \<Rightarrow> int \<Rightarrow> matriz \<Rightarrow> matriz \<times> celda \<times> celda" where
  "establecer_inicio_meta F C m =
     (let caminos = caminos_interiores F C m in
      if caminos = [] then (m((1, 1) := 0, (F - 2, C - 2) := 0), (1, 1), (F - 2, C - 2))
      else
        (let ini = py_min (\<lambda>pos. fst pos + snd pos) (candidatos_inicio F C caminos);
             caminos_meta = candidatos_meta F C caminos ini
         in if caminos_meta = [] then (m((F - 2, C - 2) := 0), ini, (F - 2, C - 2))
            else
              (let met = py_max (\<lambda>pos. (F - fst pos - 1) + (C - snd pos - 1)) caminos_meta
               in (m(ini := 0, met := 0), ini, met))))"

section \<open>Stage 5: the solvability check and the repair\<close>

definition rejilla :: "int \<Rightarrow> int \<Rightarrow> celda set" where
  "rejilla F C = {0..<F} \<times> {0..<C}"

text \<open>The recursive search of \<^verbatim>\<open>_garantizar_solucion\<close>: \<open>dfs\<close> is the nested function,
  \<open>dfs_direcciones\<close> its \<^verbatim>\<open>for dx, dy in direcciones\<close> loop. The array \<^verbatim>\<open>visitado\<close>
  is shared by all calls, so it is passed in and returned.\<close>

function dfs :: "int \<Rightarrow> int \<Rightarrow> matriz \<Rightarrow> celda \<Rightarrow> celda \<Rightarrow> celda set \<Rightarrow> rng \<Rightarrow> bool \<times> celda set \<times> rng"
  and dfs_direcciones ::
    "int \<Rightarrow> int \<Rightarrow> matriz \<Rightarrow> celda \<Rightarrow> celda \<Rightarrow> (int \<times> int) list \<Rightarrow> celda set \<Rightarrow> rng \<Rightarrow> bool \<times> celda set \<times> rng"
  where
  "dfs F C m met c visitado g =
     (if c = met then (True, visitado, g)
      else (case shuffle [(-1, 0), (0, 1), (1, 0), (0, -1)] g of
              (dirs, g') \<Rightarrow> dfs_direcciones F C m met c dirs (insert c visitado) g'))"
| "dfs_direcciones F C m met c [] visitado g = (False, visitado, g)"
| "dfs_direcciones F C m met c (d # ds) visitado g =
     (if en_rango F C (fst c + fst d, snd c + snd d)
         \<and> m (fst c + fst d, snd c + snd d) = 0
         \<and> (fst c + fst d, snd c + snd d) \<notin> visitado
      then (case dfs F C m met (fst c + fst d, snd c + snd d) visitado g of
              (encontrado, visitado', g') \<Rightarrow>
                if encontrado then (True, visitado', g')
                else dfs_direcciones F C m met c ds visitado' g')
      else dfs_direcciones F C m met c ds visitado g)"
  by pat_completeness auto

lemma length_shuffle_desde: "length (fst (shuffle_desde i xs g)) = length xs"
  by (induction i xs g rule: shuffle_desde.induct) (auto simp: randbelow_def)

lemma length_shuffle: "length (fst (shuffle xs g)) = length xs"
  by (simp add: shuffle_def length_shuffle_desde)

lemma dfs_crece:
  "dfs_dfs_direcciones_dom (Inl (F, C, m, met, c, visitado, g)) \<Longrightarrow>
     visitado \<subseteq> fst (snd (dfs F C m met c visitado g))"
  "dfs_dfs_direcciones_dom (Inr (F, C, m, met, c, ds, visitado, g)) \<Longrightarrow>
     visitado \<subseteq> fst (snd (dfs_direcciones F C m met c ds visitado g))"
proof (induction F C m met c visitado g and F C m met c ds visitado g rule: dfs_dfs_direcciones.pinduct)
  case (1 F C m met c visitado g)
  then show ?case
    by (auto simp: dfs.psimps split: prod.splits)
next
  case (2 F C m met c visitado g)
  then show ?case by (simp add: dfs_direcciones.psimps)
next
  case (3 F C m met c d ds visitado g)
  then show ?case
    apply (simp add: dfs_direcciones.psimps split: prod.splits)
    apply (auto; blast)
    done
qed

lemma shuffle_length:
  assumes "(dirs, g') = shuffle xs g"
  shows "length dirs = length xs"
  using length_shuffle [of xs g] assms [symmetric] by simp

lemma card_rejilla_insert:
  assumes "en_rango F C n" "n \<notin> vis"
  shows "card (rejilla F C - insert n vis) < card (rejilla F C - vis)"
proof -
  have "finite (rejilla F C - vis)"
    by (simp add: rejilla_def)
  moreover have "n \<in> rejilla F C - vis"
    using assms by (cases n) (simp add: rejilla_def en_rango_def)
  ultimately show ?thesis
    by (metis Diff_insert card_Diff1_less)
qed

lemma card_rejilla_mono:
  assumes "vis \<subseteq> vis'"
  shows "card (rejilla F C - vis') \<le> card (rejilla F C - vis)"
proof (rule card_mono)
  show "finite (rejilla F C - vis)"
    by (simp add: rejilla_def)
  show "rejilla F C - vis' \<subseteq> rejilla F C - vis"
    using assms by blast
qed

lemma dfs_crece_card:
  assumes "dfs_dfs_direcciones_dom (Inl (F, C, m, met, c, visitado, g))"
    and "(e, vis', g') = dfs F C m met c visitado g"
  shows "card (rejilla F C - vis') \<le> card (rejilla F C - visitado)"
  using dfs_crece(1) [OF assms(1)] assms(2) [symmetric] by (simp add: card_rejilla_mono)

termination dfs
  apply (relation "measures
     [case_sum (\<lambda>(F, C, m, met, c, vis, g). card (rejilla F C - insert c vis))
               (\<lambda>(F, C, m, met, c, ds, vis, g). card (rejilla F C - vis)),
      case_sum (\<lambda>(F, C, m, met, c, vis, g). 5)
               (\<lambda>(F, C, m, met, c, ds, vis, g). length ds)]")
     apply simp
    apply (simp add: shuffle_length)
   apply (simp add: card_rejilla_insert)
  apply (auto dest!: dfs_crece_card)
  done


text \<open>\<^verbatim>\<open>_crear_camino\<close>: first along the row of the start, then along the column
  of the goal.\<close>

function camino_horizontal :: "int \<Rightarrow> int \<Rightarrow> int \<Rightarrow> matriz \<Rightarrow> matriz" where
  "camino_horizontal x y meta_y m =
     (if y \<noteq> meta_y
      then camino_horizontal x (y + (if y < meta_y then 1 else - 1)) meta_y
             (m((x, y + (if y < meta_y then 1 else - 1)) := 0))
      else m)"
  by pat_completeness auto
termination
  by (relation "measure (\<lambda>(x, y, meta_y, m). nat \<bar>meta_y - y\<bar>)") auto

function camino_vertical :: "int \<Rightarrow> int \<Rightarrow> int \<Rightarrow> matriz \<Rightarrow> matriz" where
  "camino_vertical x y meta_x m =
     (if x \<noteq> meta_x
      then camino_vertical (x + (if x < meta_x then 1 else - 1)) y meta_x
             (m((x + (if x < meta_x then 1 else - 1), y) := 0))
      else m)"
  by pat_completeness auto
termination
  by (relation "measure (\<lambda>(x, y, meta_x, m). nat \<bar>meta_x - x\<bar>)") auto

definition crear_camino :: "matriz \<Rightarrow> celda \<Rightarrow> celda \<Rightarrow> matriz" where
  "crear_camino m ini met =
     camino_vertical (fst ini) (snd met) (fst met)
       (camino_horizontal (fst ini) (snd ini) (snd met) m)"

definition garantizar_solucion :: "int \<Rightarrow> int \<Rightarrow> matriz \<Rightarrow> celda \<Rightarrow> celda \<Rightarrow> rng \<Rightarrow> matriz" where
  "garantizar_solucion F C m ini met g =
     (case dfs F C m met ini {} g of
        (encontrado, visitado, g') \<Rightarrow> if encontrado then m else crear_camino m ini met)"

text \<open>
  The search above is the one the source runs when the interpreter never runs out of
  frames. CPython raises \<^verbatim>\<open>RecursionError\<close> on a call that would nest deeper than its
  recursion limit, 1000 unless \<^verbatim>\<open>sys.setrecursionlimit\<close> changes it; the source neither
  changes the limit nor catches the error, so the error leaves the constructor.
  \<open>dfs_limitado\<close> is the same search with the number \<open>marcos\<close> of nested calls of
  \<^verbatim>\<open>dfs\<close> the interpreter still allows: every call takes one, the calls made from
  its loop have one fewer, and a call with none left raises. As the limit bounds the
  depth of all frames, those of the callers included, fewer than 1000 nested calls of
  \<^verbatim>\<open>dfs\<close> are allowed under the default limit.
\<close>

datatype error_pila = RecursionError

function dfs_limitado ::
    "int \<Rightarrow> int \<Rightarrow> matriz \<Rightarrow> celda \<Rightarrow> celda \<Rightarrow> celda set \<Rightarrow> rng \<Rightarrow> nat
       \<Rightarrow> error_pila + (bool \<times> celda set \<times> rng)"
  and dfs_direcciones_limitado ::
    "int \<Rightarrow> int \<Rightarrow> matriz \<Rightarrow> celda \<Rightarrow> celda \<Rightarrow> (int \<times> int) list \<Rightarrow> celda set \<Rightarrow> rng \<Rightarrow> nat
       \<Rightarrow> error_pila + (bool \<times> celda set \<times> rng)"
  where
  "dfs_limitado F C m met c visitado g 0 = Inl RecursionError"
| "dfs_limitado F C m met c visitado g (Suc marcos) =
     (if c = met then Inr (True, visitado, g)
      else (case shuffle [(-1, 0), (0, 1), (1, 0), (0, -1)] g of
              (dirs, g') \<Rightarrow>
                dfs_direcciones_limitado F C m met c dirs (insert c visitado) g' marcos))"
| "dfs_direcciones_limitado F C m met c [] visitado g marcos = Inr (False, visitado, g)"
| "dfs_direcciones_limitado F C m met c (d # ds) visitado g marcos =
     (if en_rango F C (fst c + fst d, snd c + snd d)
         \<and> m (fst c + fst d, snd c + snd d) = 0
         \<and> (fst c + fst d, snd c + snd d) \<notin> visitado
      then (case dfs_limitado F C m met (fst c + fst d, snd c + snd d) visitado g marcos of
              Inl e \<Rightarrow> Inl e
            | Inr (encontrado, visitado', g') \<Rightarrow>
                if encontrado then Inr (True, visitado', g')
                else dfs_direcciones_limitado F C m met c ds visitado' g' marcos)
      else dfs_direcciones_limitado F C m met c ds visitado g marcos)"
  by pat_completeness auto
termination
  by (relation "measures
     [case_sum (\<lambda>(F, C, m, met, c, vis, g, marcos). marcos)
               (\<lambda>(F, C, m, met, c, ds, vis, g, marcos). marcos),
      case_sum (\<lambda>(F, C, m, met, c, vis, g, marcos). 0)
               (\<lambda>(F, C, m, met, c, ds, vis, g, marcos). Suc (length ds))]") auto

text \<open>\<^verbatim>\<open>_garantizar_solucion\<close> when the interpreter allows \<open>limite\<close> nested calls of
  the search.\<close>

definition garantizar_solucion_limitado ::
  "int \<Rightarrow> int \<Rightarrow> matriz \<Rightarrow> celda \<Rightarrow> celda \<Rightarrow> rng \<Rightarrow> nat \<Rightarrow> error_pila + matriz" where
  "garantizar_solucion_limitado F C m ini met g limite =
     (case dfs_limitado F C m met ini {} g limite of
        Inl e \<Rightarrow> Inl e
      | Inr (encontrado, visitado, g') \<Rightarrow>
          Inr (if encontrado then m else crear_camino m ini met))"

section \<open>The whole generation\<close>

text \<open>\<^verbatim>\<open>_crear_ciclos\<close> ends by calling \<^verbatim>\<open>_establecer_inicio_meta\<close> and
  \<^verbatim>\<open>_garantizar_solucion\<close>.\<close>

definition crear_ciclos :: "int \<Rightarrow> int \<Rightarrow> matriz \<Rightarrow> real \<Rightarrow> rng \<Rightarrow> laberinto" where
  "crear_ciclos F C m probabilidad g =
     (case ciclos_bucle probabilidad (celdas_ciclos F C) m g of
        (m1, g1) \<Rightarrow>
          (case establecer_inicio_meta F C m1 of
             (m2, ini, met) \<Rightarrow>
               \<lparr>filas = F, columnas = C, matriz = garantizar_solucion F C m2 ini met g1,
                inicio = ini, meta = met\<rparr>))"

definition direcciones_iniciales :: "(int \<times> int) list" where
  "direcciones_iniciales = [(- 2, 0), (0, 2), (2, 0), (0, - 2)]"

text \<open>The first stage alone: the origin is drawn, then the loop runs.\<close>

definition tallar :: "int \<Rightarrow> int \<Rightarrow> rng \<Rightarrow> error + (matriz \<times> celda set \<times> bifurcacion list \<times> rng)" where
  "tallar F C g =
     (case randrange 1 (F - 1) 2 g of
        Inl e \<Rightarrow> Inl e
      | Inr (inicio_x, g1) \<Rightarrow>
          (case randrange 1 (C - 1) 2 g1 of
             Inl e \<Rightarrow> Inl e
           | Inr (inicio_y, g2) \<Rightarrow>
               Inr (bucle_dfs F C ((\<lambda>c. 1)((inicio_x, inicio_y) := 0)) [(inicio_x, inicio_y)]
                      {(inicio_x, inicio_y)} [] direcciones_iniciales g2)))"

text \<open>\<^verbatim>\<open>_generar\<close>: carve, add dead ends, add cycles (which also sets the
  endpoints and repairs).\<close>

definition generar :: "int \<Rightarrow> int \<Rightarrow> real \<Rightarrow> real \<Rightarrow> rng \<Rightarrow> error + laberinto" where
  "generar F C complejidad densidad g =
     (case tallar F C g of
        Inl e \<Rightarrow> Inl e
      | Inr (m1, visitadas, bifurcaciones, g1) \<Rightarrow>
          (case agregar_complejidad F C m1 visitadas bifurcaciones
                  (factor_ramificacion complejidad) g1 of
             (m2, visitadas2, g2) \<Rightarrow> Inr (crear_ciclos F C m2 (densidad * (15 / 100)) g2)))"

text \<open>The state in which \<^verbatim>\<open>_crear_ciclos\<close> calls \<^verbatim>\<open>_garantizar_solucion\<close>:
  the matrix, the start, the goal and the random source.\<close>

definition antes_de_garantizar ::
  "int \<Rightarrow> int \<Rightarrow> real \<Rightarrow> real \<Rightarrow> rng \<Rightarrow> error + (matriz \<times> celda \<times> celda \<times> rng)" where
  "antes_de_garantizar F C complejidad densidad g =
     (case tallar F C g of
        Inl e \<Rightarrow> Inl e
      | Inr (m1, visitadas, bifurcaciones, g1) \<Rightarrow>
          (case agregar_complejidad F C m1 visitadas bifurcaciones
                  (factor_ramificacion complejidad) g1 of
             (m2, visitadas2, g2) \<Rightarrow>
               (case ciclos_bucle (densidad * (15 / 100)) (celdas_ciclos F C) m2 g2 of
                  (m3, g3) \<Rightarrow>
                    (case establecer_inicio_meta F C m3 of
                       (m4, ini, met) \<Rightarrow> Inr (m4, ini, met, g3)))))"

text \<open>The constructor \<^verbatim>\<open>Laberinto(filas, columnas, complejidad, densidad)\<close>:
  \<^verbatim>\<open>np.zeros\<close> refuses a negative dimension, then \<^verbatim>\<open>_generar\<close> runs.\<close>

definition nuevo_laberinto :: "int \<Rightarrow> int \<Rightarrow> real \<Rightarrow> real \<Rightarrow> rng \<Rightarrow> error + laberinto" where
  "nuevo_laberinto F C complejidad densidad g =
     (if F < 0 \<or> C < 0 then Inl ValueError else generar F C complejidad densidad g)"

section \<open>Vocabulary of the properties\<close>

text \<open>
  Adjacency and reachability over path cells, trees of cells, and the invariants of the
  stages, used to state and prove the properties below.
\<close>

definition adyacente :: "celda \<Rightarrow> celda \<Rightarrow> bool" where
  "adyacente a b = (\<bar>fst a - fst b\<bar> + \<bar>snd a - snd b\<bar> = 1)"

inductive alcanzable :: "int \<Rightarrow> int \<Rightarrow> matriz \<Rightarrow> celda \<Rightarrow> celda \<Rightarrow> bool"
  for F C m a where
  aqui: "alcanzable F C m a a"
| paso: "alcanzable F C m a b \<Longrightarrow> adyacente b c \<Longrightarrow> en_rango F C c \<Longrightarrow> m c = 0
         \<Longrightarrow> alcanzable F C m a c"

definition impares :: "int \<Rightarrow> int \<Rightarrow> celda set" where
  "impares F C = {c \<in> interior F C. odd (fst c) \<and> odd (snd c)}"

definition pasos :: "(int \<times> int) set" where
  "pasos = {(- 2, 0), (0, 2), (2, 0), (0, - 2)}"

definition valida :: "celda set \<Rightarrow> celda \<Rightarrow> bool" where
  "valida vis c =
     (if odd (fst c) then (if odd (snd c) then c \<in> vis
                           else (fst c, snd c - 1) \<in> vis \<and> (fst c, snd c + 1) \<in> vis)
      else odd (snd c) \<and> (fst c - 1, snd c) \<in> vis \<and> (fst c + 1, snd c) \<in> vis)"

definition tallado :: "celda set \<Rightarrow> matriz \<Rightarrow> bool" where
  "tallado vis m = ((\<forall>c\<in>vis. m c = 0) \<and> (\<forall>c. m c = 0 \<longrightarrow> valida vis c))"

inductive arbol :: "celda set \<Rightarrow> bool" where
  raiz: "arbol {c}"
| hoja: "arbol S \<Longrightarrow> c \<notin> S \<Longrightarrow> d \<in> S \<Longrightarrow> adyacente c d
         \<Longrightarrow> (\<And>e. e \<in> S \<Longrightarrow> adyacente c e \<Longrightarrow> e = d) \<Longrightarrow> arbol (insert c S)"

definition derribar :: "matriz \<Rightarrow> int \<Rightarrow> int \<Rightarrow> int \<times> int \<Rightarrow> matriz" where
  "derribar m x y d = m((x + fst d div 2, y + snd d div 2) := 0, (x + fst d, y + snd d) := 0)"

definition cerrada :: "int \<Rightarrow> int \<Rightarrow> celda set \<Rightarrow> celda \<Rightarrow> bool" where
  "cerrada F C vis c =
     (\<forall>d\<in>pasos. (fst c + fst d, snd c + snd d) \<in> interior F C
                  \<longrightarrow> (fst c + fst d, snd c + snd d) \<in> vis)"

definition bif_ok :: "int \<Rightarrow> int \<Rightarrow> bifurcacion \<Rightarrow> bool" where
  "bif_ok F C b = (\<forall>v\<in>set (snd (snd b)). (fst v, fst (snd v)) \<in> impares F C)"

definition inv_dfs ::
  "int \<Rightarrow> int \<Rightarrow> celda \<Rightarrow> matriz \<Rightarrow> celda list \<Rightarrow> celda set \<Rightarrow> bifurcacion list \<Rightarrow> (int \<times> int) list \<Rightarrow> bool" where
  "inv_dfs F C orig m pila vis bifs dirs \<longleftrightarrow>
     orig \<in> vis \<and> vis \<subseteq> impares F C \<and> set pila \<subseteq> vis \<and> tallado vis m
     \<and> (\<forall>c. m c = 0 \<longrightarrow> alcanzable F C m orig c)
     \<and> (\<forall>c\<in>vis - set pila. cerrada F C vis c)
     \<and> arbol {c. m c = 0}
     \<and> (\<forall>b\<in>set bifs. bif_ok F C b)
     \<and> set dirs = pasos \<and> (\<forall>c. m c \<le> 1)"

definition post_tallar :: "int \<Rightarrow> int \<Rightarrow> matriz \<Rightarrow> celda set \<Rightarrow> bifurcacion list \<Rightarrow> bool" where
  "post_tallar F C m vis bifs \<longleftrightarrow>
     3 \<le> F \<and> 3 \<le> C \<and> vis = impares F C \<and> tallado vis m \<and> arbol {c. m c = 0}
     \<and> (\<exists>orig\<in>vis. \<forall>c. m c = 0 \<longrightarrow> alcanzable F C m orig c)
     \<and> (\<forall>b\<in>set bifs. bif_ok F C b) \<and> (\<forall>c. m c \<le> 1)"

definition conexo :: "int \<Rightarrow> int \<Rightarrow> matriz \<Rightarrow> celda \<Rightarrow> bool" where
  "conexo F C m orig = (\<forall>c. m c = 0 \<longrightarrow> alcanzable F C m orig c)"

definition unitarias :: "(int \<times> int) set" where
  "unitarias = {(- 1, 0), (0, 1), (1, 0), (0, - 1)}"

definition explorada :: "int \<Rightarrow> int \<Rightarrow> matriz \<Rightarrow> celda set \<Rightarrow> celda \<Rightarrow> bool" where
  "explorada F C m V e =
     (\<forall>d\<in>unitarias. en_rango F C (fst e + fst d, snd e + snd d)
          \<and> m (fst e + fst d, snd e + snd d) = 0
        \<longrightarrow> (fst e + fst d, snd e + snd d) \<in> V)"

definition fallo_dfs ::
  "int \<Rightarrow> int \<Rightarrow> matriz \<Rightarrow> celda \<Rightarrow> celda set \<Rightarrow> celda set \<Rightarrow> bool" where
  "fallo_dfs F C m met vis vis' \<longleftrightarrow>
     vis \<subseteq> vis' \<and> met \<notin> vis' - vis \<and> (\<forall>e\<in>vis' - vis. explorada F C m vis' e)"

definition entre :: "int \<Rightarrow> int \<Rightarrow> int \<Rightarrow> bool" where
  "entre a b k = (k \<noteq> a \<and> min a b \<le> k \<and> k \<le> max a b)"

definition listo :: "int \<Rightarrow> int \<Rightarrow> matriz \<Rightarrow> celda \<Rightarrow> celda \<Rightarrow> bool" where
  "listo F C m ini met \<longleftrightarrow>
     ini \<in> interior F C \<and> met \<in> interior F C \<and> m ini = 0 \<and> m met = 0
     \<and> (\<forall>c. m c = 0 \<longrightarrow> c \<in> interior F C) \<and> (\<forall>c. m c \<le> 1)
     \<and> (\<forall>c. m c = 0 \<longrightarrow> c = met \<or> alcanzable F C m ini c)"

definition abierto :: "int \<Rightarrow> int \<Rightarrow> matriz \<Rightarrow> bool" where
  "abierto F C m \<longleftrightarrow>
     (\<forall>c. m c = 0 \<longrightarrow> c \<in> interior F C) \<and> (\<forall>c. m c \<le> 1) \<and> (\<forall>c\<in>impares F C. m c = 0)
     \<and> (\<exists>orig\<in>impares F C. conexo F C m orig)"

definition impar_lejano :: "int \<Rightarrow> int" where
  "impar_lejano N = (if odd N then N - 2 else N - 3)"

definition aristas :: "celda set \<Rightarrow> celda set set" where
  "aristas S = {{a, b} | a b. a \<in> S \<and> b \<in> S \<and> adyacente a b}"

text \<open>\<^verbatim>\<open>np.sum(matriz == 0)\<close>: the number of path cells of the array.\<close>

definition contar_caminos :: "laberinto \<Rightarrow> nat" where
  "contar_caminos L =
     length (filter (\<lambda>c. matriz L c = 0) (List.product [0..filas L - 1] [0..columnas L - 1]))"

section \<open>Evaluation on the constant stream\<close>

text \<open>With every raw draw equal to 0, a shuffle rotates the list to the left.\<close>

lemma randbelow_sconst: "randbelow (Suc n) (sconst 0) = (0, sconst 0)"
  by (simp add: randbelow_def)

lemma shuffle4_sconst: "shuffle [a, b, c, d] (sconst 0) = ([b, c, d, a], sconst 0)"
  by (simp add: shuffle_def randbelow_sconst numeral_3_eq_3)

lemma shuffle3_sconst: "shuffle [a, b, c] (sconst 0) = ([b, c, a], sconst 0)"
  by (simp add: shuffle_def randbelow_sconst numeral_2_eq_2)

lemma randrange_sconst:
  "randrange 1 k 2 (sconst 0) = (if k \<le> 1 then Inl ValueError else Inr (1, sconst 0))"
  by (auto simp add: randrange_def randbelow_def Let_def)

lemma tallar_5_7:
  "tallar 5 7 (sconst 0) =
     Inr ((\<lambda>c. 1)((1, 1) := 0, (1, 2) := 0, (1, 3) := 0, (2, 3) := 0, (3, 3) := 0,
            (3, 2) := 0, (3, 1) := 0, (3, 4) := 0, (3, 5) := 0, (2, 5) := 0, (1, 5) := 0),
          {(1, 5), (3, 5), (3, 1), (3, 3), (1, 3), (1, 1)},
          [(1, 1, [(3, 1, 1, 0)]), (1, 3, [(1, 5, 0, 1)]), (3, 3, [(3, 5, 0, 1)])],
          sconst 0)"
  by (simp add: tallar_def randrange_sconst direcciones_iniciales_def shuffle4_sconst
      vecinos_libres_def libre_def)

section \<open>Properties of the carver\<close>

subsection \<open>Shuffling permutes\<close>

lemma set_shuffle_desde:
  "i < length xs \<Longrightarrow> set (fst (shuffle_desde i xs g)) = set xs"
proof (induction i xs g rule: shuffle_desde.induct)
  case (1 xs g)
  then show ?case by simp
next
  case (2 i xs g)
  let ?j = "shd g mod Suc (Suc i)"
  have j: "?j < length xs"
    using 2(2) by (meson Suc_lessD less_trans_Suc mod_less_divisor not_less_eq zero_less_Suc)
  have "set (xs[Suc i := xs ! ?j, ?j := xs ! Suc i]) = set xs"
    using j 2(2) by simp
  moreover have "i < length (xs[Suc i := xs ! ?j, ?j := xs ! Suc i])"
    using 2(2) by simp
  ultimately show ?case
    using 2(1) by (simp add: randbelow_def)
qed

lemma set_shuffle [simp]: "set (fst (shuffle xs g)) = set xs"
proof (cases xs)
  case Nil
  then show ?thesis by (simp add: shuffle_def)
next
  case (Cons a list)
  then show ?thesis by (simp add: shuffle_def set_shuffle_desde)
qed

subsection \<open>Reachability\<close>

lemma adyacente_sym: "adyacente a b \<Longrightarrow> adyacente b a"
  by (simp add: adyacente_def abs_minus_commute)

lemma alcanzable_mono:
  assumes "alcanzable F C m a b" and "\<And>c. m c = 0 \<Longrightarrow> m' c = 0"
  shows "alcanzable F C m' a b"
  using assms(1)
proof induction
  case aqui
  show ?case by (rule alcanzable.aqui)
next
  case (paso b c)
  then show ?case using assms(2) by (blast intro: alcanzable.paso)
qed

lemma alcanzable_trans:
  assumes "alcanzable F C m b c" and "alcanzable F C m a b"
  shows "alcanzable F C m a c"
  using assms
proof induction
  case aqui
  then show ?case .
next
  case (paso c d)
  then show ?case by (blast intro: alcanzable.paso)
qed

lemma alcanzable_primero:
  assumes "alcanzable F C m b c" and "adyacente a b" "en_rango F C b" "m b = 0"
  shows "alcanzable F C m a c"
  using assms(1)
proof induction
  case aqui
  show ?case using assms(2-4) by (blast intro: alcanzable.intros)
next
  case (paso c d)
  then show ?case by (blast intro: alcanzable.paso)
qed

lemma alcanzable_sym:
  assumes "alcanzable F C m a b" and "en_rango F C a" "m a = 0"
  shows "alcanzable F C m b a"
  using assms(1)
proof induction
  case aqui
  show ?case by (rule alcanzable.aqui)
next
  case (paso b c)
  have "en_rango F C b \<and> m b = 0"
    using paso.hyps(1) assms(2,3) by cases auto
  then show ?case
    using paso by (blast intro: alcanzable_primero adyacente_sym)
qed

subsection \<open>The carver's invariant\<close>

lemma adyacente_casos:
  "adyacente (i, j) (a, b) \<longleftrightarrow>
     (a = i \<and> (b = j + 1 \<or> b = j - 1)) \<or> (b = j \<and> (a = i + 1 \<or> a = i - 1))"
  by (auto simp: adyacente_def)

lemma valida_mono: "valida vis c \<Longrightarrow> vis \<subseteq> vis' \<Longrightarrow> valida vis' c"
  by (auto simp: valida_def split: if_splits)

lemma derribar_cero:
  "derribar m x y d c = 0 \<longleftrightarrow>
     c = (x + fst d div 2, y + snd d div 2) \<or> c = (x + fst d, y + snd d) \<or> m c = 0"
  by (simp add: derribar_def)

lemma talladoI:
  assumes "\<And>c. c \<in> vis \<Longrightarrow> m c = 0" and "\<And>c. m c = 0 \<Longrightarrow> valida vis c"
  shows "tallado vis m"
  unfolding tallado_def using assms by blast

lemma tallado_vis: "tallado vis m \<Longrightarrow> c \<in> vis \<Longrightarrow> m c = 0"
  unfolding tallado_def by blast

lemma tallado_valida: "tallado vis m \<Longrightarrow> m c = 0 \<Longrightarrow> valida vis c"
  unfolding tallado_def by blast

lemma tallado_derribar:
  assumes t: "tallado vis m" and d: "d \<in> pasos" and xy: "(x, y) \<in> vis" "odd x" "odd y"
  shows "tallado (insert (x + fst d, y + snd d) vis) (derribar m x y d)"
proof (rule talladoI)
  let ?vis = "insert (x + fst d, y + snd d) vis"
  fix c
  show "derribar m x y d c = 0" if "c \<in> ?vis"
    using that tallado_vis [OF t, of c] by (auto simp: derribar_cero)
  show "valida ?vis c" if "derribar m x y d c = 0"
  proof -
    from that consider "c = (x + fst d div 2, y + snd d div 2)" | "c = (x + fst d, y + snd d)"
      | "m c = 0"
      by (auto simp: derribar_cero)
    then show ?thesis
    proof cases
      case 1
      then show ?thesis using d xy by (auto simp: pasos_def valida_def)
    next
      case 2
      then show ?thesis using d xy by (auto simp: pasos_def valida_def)
    next
      case 3
      then have "valida vis c" using t by (rule tallado_valida [rotated])
      then show ?thesis by (rule valida_mono) blast
    qed
  qed
qed

lemma arbol_derribar:
  assumes a: "arbol {c. m c = 0}" and t: "tallado vis m" and d: "d \<in> pasos"
    and xy: "(x, y) \<in> vis" "odd x" "odd y" and n: "(x + fst d, y + snd d) \<notin> vis"
  shows "arbol {c. derribar m x y d c = 0}"
proof -
  let ?w = "(x + fst d div 2, y + snd d div 2)"
  let ?n = "(x + fst d, y + snd d)"
  let ?P = "{c. m c = 0}"
  have eq: "{c. derribar m x y d c = 0} = insert ?n (insert ?w ?P)"
    by (auto simp: derribar_cero)
  have wP: "?w \<notin> ?P"
  proof
    assume "?w \<in> ?P"
    then have "valida vis ?w" using t by (simp add: tallado_valida)
    then have "?n \<in> vis"
      using d xy by (auto simp: pasos_def valida_def ac_simps)
    then show False using n by simp
  qed
  have nP: "?n \<notin> ?P"
  proof
    assume "?n \<in> ?P"
    then have "valida vis ?n" using t by (simp add: tallado_valida)
    then have "?n \<in> vis"
      using d xy by (auto simp: pasos_def valida_def ac_simps)
    then show False using n by simp
  qed
  have xyP: "(x, y) \<in> ?P"
    using tallado_vis [OF t xy(1)] by simp
  have adj1: "adyacente ?w (x, y)"
    using d by (auto simp: pasos_def adyacente_def)
  have uniq1: "e = (x, y)" if "e \<in> ?P" "adyacente ?w e" for e
  proof -
    obtain a b where e: "e = (a, b)" by (cases e)
    have v: "valida vis (a, b)"
      using that(1) t unfolding e by (simp add: tallado_valida)
    show ?thesis
      using d xy n v that(2) unfolding e pasos_def
      by (auto simp: adyacente_casos valida_def ac_simps split: if_splits)
  qed
  have step1: "arbol (insert ?w ?P)"
    using a wP xyP adj1 uniq1 by (rule arbol.hoja)
  have n2: "?n \<notin> insert ?w ?P"
    using nP d by (auto simp: pasos_def)
  have adj2: "adyacente ?n ?w"
    using d by (auto simp: pasos_def adyacente_def)
  have uniq2: "e = ?w" if "e \<in> insert ?w ?P" "adyacente ?n e" for e
  proof (cases "e = ?w")
    case True
    then show ?thesis .
  next
    case False
    obtain a b where e: "e = (a, b)" by (cases e)
    have "m (a, b) = 0" using that(1) False e by auto
    then have v: "valida vis (a, b)"
      using t by (simp add: tallado_valida)
    have False
      using d xy n v that(2) unfolding e pasos_def
      by (auto simp: adyacente_casos valida_def ac_simps split: if_splits)
    then show ?thesis ..
  qed
  have "arbol (insert ?n (insert ?w ?P))"
    using step1 n2 _ adj2 uniq2 by (rule arbol.hoja) simp
  then show ?thesis
    unfolding eq .
qed

lemma interior_en_rango: "c \<in> interior F C \<Longrightarrow> en_rango F C c"
  by (auto simp: interior_def en_rango_def)

lemma pared_interior:
  assumes "(x, y) \<in> interior F C" "(x + fst d, y + snd d) \<in> interior F C" "d \<in> pasos"
  shows "(x + fst d div 2, y + snd d div 2) \<in> interior F C"
  using assms by (auto simp: interior_def pasos_def)

lemma alcanzable_derribar:
  assumes r: "\<And>c. m c = 0 \<Longrightarrow> alcanzable F C m orig c"
    and xy: "m (x, y) = 0" "(x, y) \<in> interior F C"
    and d: "d \<in> pasos" and n: "(x + fst d, y + snd d) \<in> interior F C"
    and c: "derribar m x y d c = 0"
  shows "alcanzable F C (derribar m x y d) orig c"
proof -
  let ?m = "derribar m x y d"
  let ?w = "(x + fst d div 2, y + snd d div 2)"
  let ?n = "(x + fst d, y + snd d)"
  have mono: "alcanzable F C ?m orig e" if "m e = 0" for e
    using r [OF that] by (rule alcanzable_mono) (simp add: derribar_cero)
  have w: "alcanzable F C ?m orig ?w"
  proof (rule alcanzable.paso [OF mono [OF xy(1)]])
    show "adyacente (x, y) ?w"
      using d by (auto simp: pasos_def adyacente_def)
    show "en_rango F C ?w"
      using pared_interior [OF xy(2) n d] by (rule interior_en_rango)
    show "?m ?w = 0"
      by (simp add: derribar_cero)
  qed
  have n': "alcanzable F C ?m orig ?n"
  proof (rule alcanzable.paso [OF w])
    show "adyacente ?w ?n"
      using d by (auto simp: pasos_def adyacente_def)
    show "en_rango F C ?n"
      using n by (rule interior_en_rango)
    show "?m ?n = 0"
      by (simp add: derribar_cero)
  qed
  from c consider "c = ?w" | "c = ?n" | "m c = 0"
    by (auto simp: derribar_cero)
  then show ?thesis
    using w n' mono by cases simp_all
qed

lemma libre_iff: "libre F C vis x y d \<longleftrightarrow> (x + fst d, y + snd d) \<in> interior F C - vis"
  by (auto simp: libre_def interior_def)

lemma vecinos_libres_miembro:
  assumes "v \<in> set (vecinos_libres F C vis x y dirs)"
  shows "\<exists>d\<in>set dirs. libre F C vis x y d \<and> v = (x + fst d, y + snd d, fst d div 2, snd d div 2)"
  using assms by (auto simp: vecinos_libres_def)

lemma vecinos_libres_vacio:
  assumes "vecinos_libres F C vis x y dirs = []" "d \<in> set dirs"
  shows "\<not> libre F C vis x y d"
  using assms by (auto simp: vecinos_libres_def filter_empty_conv)

lemma cerrada_mono: "cerrada F C vis c \<Longrightarrow> vis \<subseteq> vis' \<Longrightarrow> cerrada F C vis' c"
  unfolding cerrada_def by blast

lemma inv_dfs_pop:
  assumes inv: "inv_dfs F C orig m ((x, y) # resto) vis bifs dirs"
    and dirs: "set dirs' = pasos"
    and v: "vecinos_libres F C vis x y dirs' = []"
  shows "inv_dfs F C orig m resto vis bifs dirs'"
proof -
  have "cerrada F C vis (x, y)"
    unfolding cerrada_def
  proof (intro ballI impI)
    fix d assume d: "d \<in> pasos"
      and i: "(fst (x, y) + fst d, snd (x, y) + snd d) \<in> interior F C"
    have "\<not> libre F C vis x y d"
      using v d dirs by (simp add: vecinos_libres_vacio)
    then show "(fst (x, y) + fst d, snd (x, y) + snd d) \<in> vis"
      using i by (simp add: libre_iff)
  qed
  moreover have "\<forall>c\<in>vis - set ((x, y) # resto). cerrada F C vis c"
    using inv unfolding inv_dfs_def by blast
  ultimately have "\<forall>c\<in>vis - set resto. cerrada F C vis c"
    by auto
  moreover have "set resto \<subseteq> vis"
    using inv unfolding inv_dfs_def by simp
  ultimately show ?thesis
    using inv dirs unfolding inv_dfs_def by blast
qed

lemma impares_paso:
  assumes "(x, y) \<in> impares F C" "d \<in> pasos" "(x + fst d, y + snd d) \<in> interior F C"
  shows "(x + fst d, y + snd d) \<in> impares F C"
  using assms by (auto simp: impares_def pasos_def)

lemma inv_dfs_push:
  assumes inv: "inv_dfs F C orig m ((x, y) # resto) vis bifs dirs"
    and dirs: "set dirs' = pasos"
    and v: "vecinos_libres F C vis x y dirs' = (nx, ny, wx, wy) # otros"
  shows "inv_dfs F C orig (m((x + wx, y + wy) := 0, (nx, ny) := 0)) ((nx, ny) # (x, y) # resto)
           (insert (nx, ny) vis) (if otros \<noteq> [] then bifs @ [(x, y, otros)] else bifs) dirs'"
proof -
  have "(nx, ny, wx, wy) \<in> set (vecinos_libres F C vis x y dirs')"
    using v by simp
  then obtain d where d: "d \<in> pasos" "libre F C vis x y d"
    and eqs: "nx = x + fst d" "ny = y + snd d" "wx = fst d div 2" "wy = snd d div 2"
    using dirs by (auto dest!: vecinos_libres_miembro)
  have m': "m((x + wx, y + wy) := 0, (nx, ny) := 0) = derribar m x y d"
    by (simp add: derribar_def eqs)
  have orig: "orig \<in> vis" and sub: "vis \<subseteq> impares F C" and pila: "set ((x, y) # resto) \<subseteq> vis"
    and t: "tallado vis m" and r: "\<And>c. m c = 0 \<Longrightarrow> alcanzable F C m orig c"
    and cer: "\<And>c. c \<in> vis - set ((x, y) # resto) \<Longrightarrow> cerrada F C vis c"
    and a: "arbol {c. m c = 0}" and b: "\<And>b. b \<in> set bifs \<Longrightarrow> bif_ok F C b"
    and le: "\<And>c. m c \<le> 1"
    using inv unfolding inv_dfs_def by blast+
  have xy: "(x, y) \<in> vis" using pila by simp
  then have xyi: "(x, y) \<in> impares F C" using sub by blast
  then have par: "odd x" "odd y" and xyint: "(x, y) \<in> interior F C"
    by (simp_all add: impares_def)
  have nint: "(nx, ny) \<in> interior F C" and nvis: "(nx, ny) \<notin> vis"
    using d(2) by (simp_all add: libre_iff eqs)
  have nimp: "(nx, ny) \<in> impares F C"
    unfolding eqs using xyi d(1) nint [unfolded eqs] by (rule impares_paso)
  have c1: "orig \<in> insert (nx, ny) vis" using orig by simp
  have c2: "insert (nx, ny) vis \<subseteq> impares F C" using sub nimp by simp
  have c3: "set ((nx, ny) # (x, y) # resto) \<subseteq> insert (nx, ny) vis" using pila by auto
  have c4: "tallado (insert (nx, ny) vis) (derribar m x y d)"
    unfolding eqs using t d(1) xy par by (rule tallado_derribar)
  have c5: "\<forall>c. derribar m x y d c = 0 \<longrightarrow> alcanzable F C (derribar m x y d) orig c"
    using alcanzable_derribar [OF r tallado_vis [OF t xy] xyint d(1) nint [unfolded eqs]]
    by blast
  have c6: "\<forall>c\<in>insert (nx, ny) vis - set ((nx, ny) # (x, y) # resto).
              cerrada F C (insert (nx, ny) vis) c"
  proof
    fix c assume "c \<in> insert (nx, ny) vis - set ((nx, ny) # (x, y) # resto)"
    then have "c \<in> vis - set ((x, y) # resto)" by auto
    then have "cerrada F C vis c" by (rule cer)
    then show "cerrada F C (insert (nx, ny) vis) c"
      by (rule cerrada_mono) blast
  qed
  have c7: "arbol {c. derribar m x y d c = 0}"
    using a t d(1) xy par nvis [unfolded eqs] by (rule arbol_derribar)
  have c8: "\<forall>b\<in>set (if otros \<noteq> [] then bifs @ [(x, y, otros)] else bifs). bif_ok F C b"
  proof -
    have "bif_ok F C (x, y, otros)"
      unfolding bif_ok_def
    proof
      fix u assume "u \<in> set (snd (snd (x, y, otros)))"
      then have "u \<in> set (vecinos_libres F C vis x y dirs')"
        using v by simp
      then obtain e where e: "e \<in> pasos" "libre F C vis x y e"
        and u: "u = (x + fst e, y + snd e, fst e div 2, snd e div 2)"
        using dirs by (auto dest!: vecinos_libres_miembro)
      have "(x + fst e, y + snd e) \<in> interior F C"
        using e(2) by (simp add: libre_iff)
      with xyi e(1) have "(x + fst e, y + snd e) \<in> impares F C"
        by (rule impares_paso)
      then show "(fst u, fst (snd u)) \<in> impares F C"
        by (simp add: u)
    qed
    then show ?thesis using b by auto
  qed
  have c10: "\<forall>c. derribar m x y d c \<le> 1"
    using le by (simp add: derribar_def)
  show ?thesis
    unfolding m' inv_dfs_def using c1 c2 c3 c4 c5 c6 c7 c8 dirs c10 by blast
qed

lemma inv_dfs_bucle:
  assumes "inv_dfs F C orig m pila vis bifs dirs"
    and "bucle_dfs F C m pila vis bifs dirs g = (m', vis', bifs', g')"
  shows "\<exists>dirs'. inv_dfs F C orig m' [] vis' bifs' dirs'"
  using assms
proof (induction F C m pila vis bifs dirs g rule: bucle_dfs.induct)
  case (1 F C m visitadas bifurcaciones direcciones g)
  then show ?case by auto
next
  case (2 F C m x y resto visitadas bifurcaciones direcciones g)
  obtain dirs g1 where sh: "shuffle direcciones g = (dirs, g1)"
    by (cases "shuffle direcciones g")
  have "set direcciones = pasos"
    using "2.prems"(1) by (simp add: inv_dfs_def)
  then have dirs: "set dirs = pasos"
    using set_shuffle [of direcciones g] sh by simp
  show ?case
  proof (cases "vecinos_libres F C visitadas x y dirs")
    case Nil
    have "inv_dfs F C orig m resto visitadas bifurcaciones dirs"
      using "2.prems"(1) dirs Nil by (rule inv_dfs_pop)
    moreover have "bucle_dfs F C m resto visitadas bifurcaciones dirs g1 = (m', vis', bifs', g')"
      using "2.prems"(2) sh Nil by simp
    ultimately show ?thesis
      using "2.IH"(1) [OF sh [symmetric] Nil] by blast
  next
    case (Cons v otros)
    obtain nx ny wx wy where v: "v = (nx, ny, wx, wy)"
      by (cases v)
    note vl = Cons [unfolded v]
    have "inv_dfs F C orig (m((x + wx, y + wy) := 0, (nx, ny) := 0)) ((nx, ny) # (x, y) # resto)
           (insert (nx, ny) visitadas)
           (if otros \<noteq> [] then bifurcaciones @ [(x, y, otros)] else bifurcaciones) dirs"
      using "2.prems"(1) dirs vl by (rule inv_dfs_push)
    moreover have "bucle_dfs F C (m((x + wx, y + wy) := 0, (nx, ny) := 0)) ((nx, ny) # (x, y) # resto)
           (insert (nx, ny) visitadas)
           (if otros \<noteq> [] then bifurcaciones @ [(x, y, otros)] else bifurcaciones) dirs g1
         = (m', vis', bifs', g')"
      using "2.prems"(2) sh vl by simp
    ultimately show ?thesis
      using "2.IH"(2) [OF sh [symmetric] vl refl refl refl] by blast
  qed
qed

subsection \<open>The carver visits the whole odd lattice\<close>

lemma camina:
  assumes cl: "\<And>c. c \<in> vis \<Longrightarrow> cerrada F C vis c" and d: "d \<in> pasos"
    and c: "(x, y) \<in> vis" "(x, y) \<in> interior F C"
  shows "(x + int k * fst d, y + int k * snd d) \<in> interior F C
         \<Longrightarrow> (x + int k * fst d, y + int k * snd d) \<in> vis"
proof (induction k)
  case 0
  then show ?case using c by simp
next
  case (Suc k)
  let ?p = "(x + int k * fst d, y + int k * snd d)"
  have "?p \<in> interior F C"
    using Suc.prems c(2) d by (auto simp: interior_def pasos_def algebra_simps)
  then have "?p \<in> vis" by (rule Suc.IH)
  then have "cerrada F C vis ?p" by (rule cl)
  moreover have "(fst ?p + fst d, snd ?p + snd d)
      = (x + int (Suc k) * fst d, y + int (Suc k) * snd d)"
    by (simp add: algebra_simps)
  ultimately show ?case
    using Suc.prems d unfolding cerrada_def by metis
qed

lemma camina_fila:
  assumes cl: "\<And>c. c \<in> vis \<Longrightarrow> cerrada F C vis c"
    and c: "(a, b) \<in> vis" "(a, b) \<in> interior F C" and i: "(i, b) \<in> interior F C" "even (i - a)"
  shows "(i, b) \<in> vis"
proof (cases "a \<le> i")
  case True
  then have "i = a + int (nat ((i - a) div 2)) * 2" using i(2) by auto
  then have e: "(i, b) = (a + int (nat ((i - a) div 2)) * fst (2 :: int, 0 :: int),
                        b + int (nat ((i - a) div 2)) * snd (2 :: int, 0 :: int))"
    by simp
  show ?thesis
    using camina [OF cl _ c, of "(2, 0)" "nat ((i - a) div 2)"] i(1) unfolding e [symmetric]
    by (simp add: pasos_def)
next
  case False
  then have "i = a + int (nat ((a - i) div 2)) * (- 2)" using i(2) by auto
  then have e: "(i, b) = (a + int (nat ((a - i) div 2)) * fst (- 2 :: int, 0 :: int),
                        b + int (nat ((a - i) div 2)) * snd (- 2 :: int, 0 :: int))"
    by simp
  show ?thesis
    using camina [OF cl _ c, of "(- 2, 0)" "nat ((a - i) div 2)"] i(1) unfolding e [symmetric]
    by (simp add: pasos_def)
qed

lemma camina_columna:
  assumes cl: "\<And>c. c \<in> vis \<Longrightarrow> cerrada F C vis c"
    and c: "(a, b) \<in> vis" "(a, b) \<in> interior F C" and j: "(a, j) \<in> interior F C" "even (j - b)"
  shows "(a, j) \<in> vis"
proof (cases "b \<le> j")
  case True
  then have "j = b + int (nat ((j - b) div 2)) * 2" using j(2) by auto
  then have e: "(a, j) = (a + int (nat ((j - b) div 2)) * fst (0 :: int, 2 :: int),
                        b + int (nat ((j - b) div 2)) * snd (0 :: int, 2 :: int))"
    by simp
  show ?thesis
    using camina [OF cl _ c, of "(0, 2)" "nat ((j - b) div 2)"] j(1) unfolding e [symmetric]
    by (simp add: pasos_def)
next
  case False
  then have "j = b + int (nat ((b - j) div 2)) * (- 2)" using j(2) by auto
  then have e: "(a, j) = (a + int (nat ((b - j) div 2)) * fst (0 :: int, - 2 :: int),
                        b + int (nat ((b - j) div 2)) * snd (0 :: int, - 2 :: int))"
    by simp
  show ?thesis
    using camina [OF cl _ c, of "(0, - 2)" "nat ((b - j) div 2)"] j(1) unfolding e [symmetric]
    by (simp add: pasos_def)
qed

lemma cerrado_completo:
  assumes o: "orig \<in> vis" and sub: "vis \<subseteq> impares F C"
    and cl: "\<And>c. c \<in> vis \<Longrightarrow> cerrada F C vis c"
  shows "vis = impares F C"
proof
  show "vis \<subseteq> impares F C" by (rule sub)
  show "impares F C \<subseteq> vis"
  proof
    fix c assume c: "c \<in> impares F C"
    obtain i j where ij: "c = (i, j)" by (cases c)
    obtain a b where ab: "orig = (a, b)" by (cases orig)
    have oi: "(a, b) \<in> impares F C" using o sub ab by blast
    have 1: "(i, b) \<in> vis"
      using cl o [unfolded ab]
    proof (rule camina_fila)
      show "(a, b) \<in> interior F C" using oi by (simp add: impares_def)
      show "(i, b) \<in> interior F C" using oi c ij by (simp add: impares_def interior_def)
      show "even (i - a)" using oi c ij by (simp add: impares_def)
    qed
    have "(i, j) \<in> vis"
      using cl 1
    proof (rule camina_columna)
      show "(i, b) \<in> interior F C" using oi c ij by (simp add: impares_def interior_def)
      show "(i, j) \<in> interior F C" using c ij by (simp add: impares_def)
      show "even (j - b)" using oi c ij by (simp add: impares_def)
    qed
    then show "c \<in> vis" by (simp add: ij)
  qed
qed

subsection \<open>What the first stage returns\<close>

lemma randrange_Inl: "randrange 1 (N - 1) 2 g = Inl e \<longleftrightarrow> N < 3"
  by (cases e) (auto simp: randrange_def Let_def randbelow_def)

lemma randrange_Inr:
  assumes "randrange 1 (N - 1) 2 g = Inr (k, g')"
  shows "1 \<le> k \<and> k < N - 1 \<and> odd k \<and> 3 \<le> N"
proof -
  let ?n = "(N - 1 - 1 + 2 - 1) div 2"
  have n: "0 < ?n" and k: "k = 1 + 2 * int (shd g mod nat ?n)"
    using assms by (auto simp: randrange_def Let_def randbelow_def split: if_splits)
  have "shd g mod nat ?n < nat ?n"
    using n by simp
  then have "int (shd g mod nat ?n) < ?n"
    using n by linarith
  then show ?thesis
    using n unfolding k by auto
qed

lemma inv_dfs_inicial:
  assumes "orig \<in> impares F C"
  shows "inv_dfs F C orig ((\<lambda>c. 1)(orig := 0)) [orig] {orig} [] direcciones_iniciales"
proof -
  have "tallado {orig} ((\<lambda>c. 1)(orig := 0))"
    using assms by (intro talladoI) (auto simp: valida_def impares_def split: if_splits)
  moreover have "{c. ((\<lambda>c. 1 :: nat)(orig := 0)) c = 0} = {orig}"
    by auto
  then have "arbol {c. ((\<lambda>c. 1 :: nat)(orig := 0)) c = 0}"
    by (simp add: arbol.raiz)
  moreover have "\<forall>c. ((\<lambda>c. 1 :: nat)(orig := 0)) c = 0 \<longrightarrow>
      alcanzable F C ((\<lambda>c. 1)(orig := 0)) orig c"
    by (auto intro: alcanzable.aqui)
  moreover have "set direcciones_iniciales = pasos"
    by (auto simp: direcciones_iniciales_def pasos_def)
  ultimately show ?thesis
    using assms unfolding inv_dfs_def by auto
qed

lemma tallar_Inl: "tallar F C g = Inl e \<longleftrightarrow> F < 3 \<or> C < 3"
proof (cases "randrange 1 (F - 1) 2 g")
  case (Inl a)
  then show ?thesis
    using randrange_Inl [of F g a] by (cases e, cases a) (simp add: tallar_def)
next
  case (Inr p)
  obtain ix g1 where p: "p = (ix, g1)" by (cases p)
  have F: "3 \<le> F" using randrange_Inr [OF Inr [unfolded p]] by simp
  show ?thesis
  proof (cases "randrange 1 (C - 1) 2 g1")
    case (Inl a)
    then show ?thesis
      using randrange_Inl [of C g1 a] Inr p by (cases e, cases a) (simp add: tallar_def)
  next
    case Inr2: (Inr q)
    obtain iy g2 where q: "q = (iy, g2)" by (cases q)
    have "3 \<le> C" using randrange_Inr [OF Inr2 [unfolded q]] by simp
    then show ?thesis
      using F Inr p Inr2 q by (simp add: tallar_def)
  qed
qed

lemma tallar_Inr:
  assumes "tallar F C g = Inr (m, vis, bifs, g')"
  shows "post_tallar F C m vis bifs"
proof -
  obtain ix g1 where r1: "randrange 1 (F - 1) 2 g = Inr (ix, g1)"
    using assms by (auto simp: tallar_def split: sum.splits)
  obtain iy g2 where r2: "randrange 1 (C - 1) 2 g1 = Inr (iy, g2)"
    using assms r1 by (auto simp: tallar_def split: sum.splits)
  have b: "bucle_dfs F C ((\<lambda>c. 1)((ix, iy) := 0)) [(ix, iy)] {(ix, iy)} [] direcciones_iniciales g2
      = (m, vis, bifs, g')"
    using assms r1 r2 by (simp add: tallar_def)
  have F: "1 \<le> ix \<and> ix < F - 1 \<and> odd ix \<and> 3 \<le> F" using r1 by (rule randrange_Inr)
  have C: "1 \<le> iy \<and> iy < C - 1 \<and> odd iy \<and> 3 \<le> C" using r2 by (rule randrange_Inr)
  have "(ix, iy) \<in> impares F C"
    using F C by (simp add: impares_def interior_def)
  then have "inv_dfs F C (ix, iy) ((\<lambda>c. 1)((ix, iy) := 0)) [(ix, iy)] {(ix, iy)} []
      direcciones_iniciales"
    by (rule inv_dfs_inicial)
  then obtain dirs where i: "inv_dfs F C (ix, iy) m [] vis bifs dirs"
    using inv_dfs_bucle [OF _ b] by blast
  have o: "(ix, iy) \<in> vis" and sub: "vis \<subseteq> impares F C"
    and cl: "\<And>c. c \<in> vis \<Longrightarrow> cerrada F C vis c"
    using i unfolding inv_dfs_def by auto
  have "vis = impares F C"
    using o sub cl by (rule cerrado_completo)
  then show ?thesis
    using i F C o unfolding inv_dfs_def post_tallar_def by blast
qed

section \<open>Properties of the later stages\<close>

subsection \<open>Stage 2 finds every recorded neighbour visited\<close>

lemma procesar_bifurcaciones_nada:
  assumes "\<And>b. b \<in> set bs \<Longrightarrow> bif_ok F C b"
  shows "procesar_bifurcaciones F C bs m (impares F C) g = (m, impares F C, g)"
  using assms
proof (induction bs)
  case Nil
  show ?case by simp
next
  case (Cons b bs)
  obtain x y vecinos where b: "b = (x, y, vecinos)" by (cases b)
  have ih: "procesar_bifurcaciones F C bs m (impares F C) g = (m, impares F C, g)"
    using Cons by simp
  show ?case
  proof (cases vecinos)
    case Nil
    then show ?thesis using ih b by simp
  next
    case (Cons v vs)
    obtain nx ny wx wy where v: "v = (nx, ny, wx, wy)" by (cases v)
    have "bif_ok F C b" using Cons.prems by simp
    then have "(nx, ny) \<in> impares F C"
      using b Cons v by (simp add: bif_ok_def)
    then show ?thesis using ih b Cons v by simp
  qed
qed

lemma agregar_complejidad_nada:
  assumes "post_tallar F C m vis bifs"
  shows "agregar_complejidad F C m vis bifs factor g = (m, vis, snd (shuffle bifs g))"
proof -
  have vis: "vis = impares F C" and ok: "\<And>b. b \<in> set bifs \<Longrightarrow> bif_ok F C b"
    using assms unfolding post_tallar_def by blast+
  have "set (bifurcaciones_elegidas xs factor) \<subseteq> set xs" for xs
    unfolding bifurcaciones_elegidas_def Let_def by (rule set_take_subset)
  then have "set (bifurcaciones_elegidas (fst (shuffle bifs g)) factor) \<subseteq> set bifs"
    using set_shuffle [of bifs g] by metis
  then have "b \<in> set (bifurcaciones_elegidas (fst (shuffle bifs g)) factor) \<Longrightarrow> bif_ok F C b" for b
    using ok by blast
  then have "procesar_bifurcaciones F C (bifurcaciones_elegidas (fst (shuffle bifs g)) factor) m
      (impares F C) (snd (shuffle bifs g)) = (m, impares F C, snd (shuffle bifs g))"
    by (rule procesar_bifurcaciones_nada)
  then show ?thesis
    by (simp add: agregar_complejidad_def vis case_prod_unfold)
qed

subsection \<open>Connected sets of path cells\<close>

lemma conexoD: "conexo F C m orig \<Longrightarrow> m c = 0 \<Longrightarrow> alcanzable F C m orig c"
  unfolding conexo_def by blast

lemma conexo_abrir:
  assumes con: "conexo F C m orig" and e: "m e = 0" "adyacente e c" and c: "en_rango F C c"
  shows "conexo F C (m(c := 0)) orig"
  unfolding conexo_def
proof (intro allI impI)
  fix k assume k: "(m(c := 0)) k = 0"
  have mono: "alcanzable F C (m(c := 0)) orig x" if "m x = 0" for x
    using conexoD [OF con that] by (rule alcanzable_mono) simp
  have "alcanzable F C (m(c := 0)) orig c"
    using mono [OF e(1)] e(2) c by (rule alcanzable.paso) simp
  then show "alcanzable F C (m(c := 0)) orig k"
    using k mono by (cases "k = c") simp_all
qed

lemma conexo_otro_origen:
  assumes con: "conexo F C m orig" and o: "m orig = 0" "en_rango F C orig" and a: "m a = 0"
  shows "conexo F C m a"
  unfolding conexo_def
proof (intro allI impI)
  fix c assume "m c = 0"
  then have "alcanzable F C m orig c" by (rule conexoD [OF con])
  moreover have "alcanzable F C m a orig"
    using conexoD [OF con a] o(2,1) by (rule alcanzable_sym)
  ultimately show "alcanzable F C m a c" by (rule alcanzable_trans)
qed

subsection \<open>Stage 3 opens interior cells next to path cells\<close>

lemma ciclos_bucle_post:
  assumes "set cs \<subseteq> interior F C" "conexo F C m orig" "ciclos_bucle p cs m g = (m', g')"
  shows "conexo F C m' orig \<and> (\<forall>c. m c = 0 \<longrightarrow> m' c = 0)
         \<and> (\<forall>c. m' c = 0 \<longrightarrow> m c = 0 \<or> c \<in> set cs)"
  using assms
proof (induction cs arbitrary: m g)
  case Nil
  then show ?case by simp
next
  case (Cons c cs)
  obtain i j where c: "c = (i, j)" by (cases c)
  have cs: "set cs \<subseteq> interior F C" and ci: "en_rango F C (i, j)"
    using Cons.prems(1) c by (auto intro: interior_en_rango)
  let ?abre = "m (i, j) = 1 \<and> (m (i - 1, j) = 0 \<and> m (i + 1, j) = 0 \<or> m (i, j - 1) = 0 \<and> m (i, j + 1) = 0)
               \<and> fst (random_py g) < p"
  show ?case
  proof (cases ?abre)
    case True
    then obtain e where e: "m e = 0" "adyacente e (i, j)"
      by (auto simp: adyacente_def)
    have con: "conexo F C (m((i, j) := 0)) orig"
      using Cons.prems(2) e ci by (rule conexo_abrir)
    have run: "ciclos_bucle p cs (m((i, j) := 0)) (snd (random_py g)) = (m', g')"
      using Cons.prems(3) True c by (simp add: case_prod_unfold)
    have h: "conexo F C m' orig" "\<And>k. (m((i, j) := 0)) k = 0 \<Longrightarrow> m' k = 0"
      "\<And>k. m' k = 0 \<Longrightarrow> (m((i, j) := 0)) k = 0 \<or> k \<in> set cs"
      using Cons.IH [OF cs con run] by blast+
    show ?thesis
    proof (intro conjI allI impI)
      show "conexo F C m' orig" by (rule h(1))
    next
      fix k assume "m k = 0"
      then have "(m((i, j) := 0)) k = 0" by simp
      then show "m' k = 0" by (rule h(2))
    next
      fix k assume "m' k = 0"
      then have "(m((i, j) := 0)) k = 0 \<or> k \<in> set cs" by (rule h(3))
      then show "m k = 0 \<or> k \<in> set (c # cs)"
        using c by (auto split: if_splits)
    qed
  next
    case False
    then obtain g1 where run: "ciclos_bucle p cs m g1 = (m', g')"
      using Cons.prems(3) c by (auto simp: Let_def case_prod_unfold split: if_splits)
    show ?thesis
      using Cons.IH [OF cs Cons.prems(2) run] by (simp del: split_paired_All) blast
  qed
qed

lemma celdas_ciclos_interior: "set (celdas_ciclos F C) \<subseteq> interior F C"
  by (auto simp: celdas_ciclos_def rango_par_def interior_def)

subsection \<open>Stage 4 chooses among the interior path cells\<close>

lemma min_clave_in: "min_clave f b xs \<in> insert b (set xs)"
  by (induction xs arbitrary: b) (auto split: if_splits)

lemma max_clave_in: "max_clave f b xs \<in> insert b (set xs)"
  by (induction xs arbitrary: b) (auto split: if_splits)

lemma py_min_in: "xs \<noteq> [] \<Longrightarrow> py_min f xs \<in> set xs"
  using min_clave_in [of f "hd xs" "tl xs"] by (cases xs) auto

lemma py_max_in: "xs \<noteq> [] \<Longrightarrow> py_max f xs \<in> set xs"
  using max_clave_in [of f "hd xs" "tl xs"] by (cases xs) auto

lemma min_clave_le: "f (min_clave f b xs) \<le> f b \<and> (\<forall>x\<in>set xs. f (min_clave f b xs) \<le> f x)"
proof (induction xs arbitrary: b)
  case Nil
  show ?case by simp
next
  case (Cons a xs)
  show ?case
    using Cons [of a] Cons [of b] by (auto split: if_splits)
qed

lemma py_min_le: "x \<in> set xs \<Longrightarrow> f (py_min f xs) \<le> f x"
  using min_clave_le [of f "hd xs" "tl xs"] by (cases xs) auto

lemma set_caminos_interiores: "set (caminos_interiores F C m) = {c \<in> interior F C. m c = 0}"
  by (auto simp: caminos_interiores_def interior_def)

lemma candidatos_inicio_sub: "set (candidatos_inicio F C cam) \<subseteq> set cam"
  by (auto simp: candidatos_inicio_def Let_def)

lemma candidatos_inicio_no_vacio: "cam \<noteq> [] \<Longrightarrow> candidatos_inicio F C cam \<noteq> []"
  by (auto simp: candidatos_inicio_def Let_def)

lemma candidatos_meta_sub:
  assumes "0 \<le> max F C"
  shows "set (candidatos_meta F C cam ini) \<subseteq> set cam - {ini}"
proof -
  have "0 \<le> max F C div 2" using assms by simp
  then show ?thesis
    by (cases ini) (auto simp: candidatos_meta_def Let_def)
qed

lemma candidatos_meta_vacio:
  assumes "candidatos_meta F C cam ini = []"
  shows "set cam \<subseteq> {ini}"
proof -
  have "filter (\<lambda>pos. pos \<noteq> ini) cam = []"
    using assms by (auto simp: candidatos_meta_def Let_def split: if_splits)
  then show ?thesis
    by (auto simp: filter_empty_conv)
qed

lemma establecer_casos:
  assumes e: "establecer_inicio_meta F C m = (m', ini, met)" and F: "0 \<le> max F C"
  obtains
    (vacio) "caminos_interiores F C m = []" "ini = (1, 1)" "met = (F - 2, C - 2)"
      "m' = m((1, 1) := 0, (F - 2, C - 2) := 0)"
  | (solo) "ini \<in> set (caminos_interiores F C m)" "set (caminos_interiores F C m) \<subseteq> {ini}"
      "met = (F - 2, C - 2)" "m' = m(met := 0)"
      "ini = py_min (\<lambda>pos. fst pos + snd pos) (candidatos_inicio F C (caminos_interiores F C m))"
  | (normal) "ini \<in> set (caminos_interiores F C m)" "met \<in> set (caminos_interiores F C m)"
      "met \<noteq> ini" "m' = m"
      "ini = py_min (\<lambda>pos. fst pos + snd pos) (candidatos_inicio F C (caminos_interiores F C m))"
      "met = py_max (\<lambda>pos. (F - fst pos - 1) + (C - snd pos - 1))
               (candidatos_meta F C (caminos_interiores F C m) ini)"
      "candidatos_meta F C (caminos_interiores F C m) ini \<noteq> []"
proof (cases "caminos_interiores F C m = []")
  case True
  then have "ini = (1, 1)" "met = (F - 2, C - 2)" "m' = m((1, 1) := 0, (F - 2, C - 2) := 0)"
    using e by (auto simp: establecer_inicio_meta_def)
  then show ?thesis
    using True by (rule vacio [rotated])
next
  case False
  let ?cam = "caminos_interiores F C m"
  let ?ini = "py_min (\<lambda>pos. fst pos + snd pos) (candidatos_inicio F C ?cam)"
  have "?ini \<in> set (candidatos_inicio F C ?cam)"
    using False by (intro py_min_in candidatos_inicio_no_vacio)
  then have ini_in: "?ini \<in> set ?cam"
    using candidatos_inicio_sub by blast
  show ?thesis
  proof (cases "candidatos_meta F C ?cam ?ini = []")
    case True
    have "ini = ?ini" "met = (F - 2, C - 2)" "m' = m(met := 0)"
      using e False True by (auto simp: establecer_inicio_meta_def Let_def)
    then show ?thesis
      using solo ini_in candidatos_meta_vacio [OF True] by simp
  next
    case cm: False
    let ?met = "py_max (\<lambda>pos. (F - fst pos - 1) + (C - snd pos - 1))
                  (candidatos_meta F C ?cam ?ini)"
    have eq: "ini = ?ini" "met = ?met" "m' = m(ini := 0, met := 0)"
      using e False cm by (auto simp: establecer_inicio_meta_def Let_def)
    have "?met \<in> set (candidatos_meta F C ?cam ?ini)"
      using cm by (rule py_max_in)
    then have met_in: "?met \<in> set ?cam - {?ini}"
      using candidatos_meta_sub [OF F] by blast
    have "m ini = 0" "m met = 0"
      using ini_in met_in eq by (simp_all add: set_caminos_interiores)
    then have "m' = m"
      using eq(3) by (simp add: fun_upd_idem)
    then show ?thesis
      using normal ini_in met_in eq cm by simp
  qed
qed

subsection \<open>Stage 5: the search decides reachability\<close>

declare dfs.simps [simp del]
declare camino_horizontal.simps [simp del] camino_vertical.simps [simp del]

lemma adyacente_unitaria: "d \<in> unitarias \<Longrightarrow> adyacente c (fst c + fst d, snd c + snd d)"
  by (auto simp: unitarias_def adyacente_def)

lemma adyacente_es_unitaria:
  assumes "adyacente b c"
  shows "\<exists>d\<in>unitarias. c = (fst b + fst d, snd b + snd d)"
proof -
  obtain i j where b: "b = (i, j)" by (cases b)
  obtain k l where c: "c = (k, l)" by (cases c)
  show ?thesis
    using assms unfolding b c adyacente_casos unitarias_def by auto
qed

lemma set_direcciones_dfs:
  "set (fst (shuffle [(- 1, 0), (0, 1), (1, 0), (0, - 1)] g)) = unitarias"
  by (simp add: unitarias_def)

lemma dfs_correcto:
  "dfs F C m met c vis g = (True, vis', g') \<Longrightarrow> alcanzable F C m c met"
  "set ds \<subseteq> unitarias \<Longrightarrow> dfs_direcciones F C m met c ds vis g = (True, vis', g')
     \<Longrightarrow> alcanzable F C m c met"
proof (induction F C m met c vis g and F C m met c ds vis g arbitrary: vis' g' and vis' g'
    rule: dfs_dfs_direcciones.induct)
  case (1 F C m met c visitado g)
  show ?case
  proof (cases "c = met")
    case True
    then show ?thesis by (simp add: alcanzable.aqui)
  next
    case False
    obtain dirs g1
      where sh: "shuffle [(- 1 :: int, 0 :: int), (0, 1), (1, 0), (0, - 1)] g = (dirs, g1)"
      by (cases "shuffle [(- 1 :: int, 0 :: int), (0, 1), (1, 0), (0, - 1)] g")
    have "set dirs \<subseteq> unitarias"
      using set_direcciones_dfs [of g] sh by simp
    moreover have "dfs_direcciones F C m met c dirs (insert c visitado) g1 = (True, vis', g')"
      using "1.prems" False sh by (simp add: dfs.simps)
    ultimately show ?thesis
      using "1.IH" [OF False sh [symmetric]] by blast
  qed
next
  case (2 F C m met c visitado g)
  then show ?case by simp
next
  case (3 F C m met c d ds visitado g)
  let ?n = "(fst c + fst d, snd c + snd d)"
  have ds: "set ds \<subseteq> unitarias" and d: "d \<in> unitarias"
    using "3.prems"(1) by auto
  show ?case
  proof (cases "en_rango F C ?n \<and> m ?n = 0 \<and> ?n \<notin> visitado")
    case True
    obtain enc v1 g1 where r: "dfs F C m met ?n visitado g = (enc, v1, g1)"
      by (cases "dfs F C m met ?n visitado g")
    show ?thesis
    proof (cases enc)
      case True
      have "alcanzable F C m ?n met"
        using "3.IH"(1) [OF \<open>en_rango F C ?n \<and> m ?n = 0 \<and> ?n \<notin> visitado\<close>] r True by simp
      then show ?thesis
        using adyacente_unitaria [OF d, of c] \<open>en_rango F C ?n \<and> m ?n = 0 \<and> ?n \<notin> visitado\<close>
        by (blast intro: alcanzable_primero)
    next
      case False
      have "dfs_direcciones F C m met c ds v1 g1 = (True, vis', g')"
        using "3.prems"(2) True r False by simp
      then show ?thesis
        using "3.IH"(2) [OF True r [symmetric] refl False ds] by blast
    qed
  next
    case False
    then have "dfs_direcciones F C m met c ds visitado g = (True, vis', g')"
      using "3.prems"(2) by auto
    then show ?thesis
      using "3.IH"(3) [OF False ds] by blast
  qed
qed

lemma explorada_mono: "explorada F C m V e \<Longrightarrow> V \<subseteq> V' \<Longrightarrow> explorada F C m V' e"
  unfolding explorada_def by blast

lemma fallo_dfs_trans:
  assumes "fallo_dfs F C m met v0 v1" "fallo_dfs F C m met v1 v2"
  shows "fallo_dfs F C m met v0 v2"
proof -
  have a: "v0 \<subseteq> v1" "met \<notin> v1 - v0" "\<And>e. e \<in> v1 - v0 \<Longrightarrow> explorada F C m v1 e"
    and b: "v1 \<subseteq> v2" "met \<notin> v2 - v1" "\<And>e. e \<in> v2 - v1 \<Longrightarrow> explorada F C m v2 e"
    using assms unfolding fallo_dfs_def by blast+
  have "explorada F C m v2 e" if "e \<in> v2 - v0" for e
  proof (cases "e \<in> v1")
    case True
    then have "explorada F C m v1 e" using that a(3) by blast
    then show ?thesis using b(1) by (rule explorada_mono)
  next
    case False
    then show ?thesis using that b(3) by blast
  qed
  then show ?thesis
    unfolding fallo_dfs_def using a(1,2) b(1,2) by blast
qed

lemma dfs_completo:
  "dfs F C m met c vis g = (False, vis', g') \<Longrightarrow> c \<in> vis' \<and> fallo_dfs F C m met vis vis'"
  "dfs_direcciones F C m met c ds vis g = (False, vis', g')
     \<Longrightarrow> fallo_dfs F C m met vis vis'
         \<and> (\<forall>d\<in>set ds. en_rango F C (fst c + fst d, snd c + snd d)
                \<and> m (fst c + fst d, snd c + snd d) = 0
              \<longrightarrow> (fst c + fst d, snd c + snd d) \<in> vis')"
proof (induction F C m met c vis g and F C m met c ds vis g arbitrary: vis' g' and vis' g'
    rule: dfs_dfs_direcciones.induct)
  case (1 F C m met c visitado g)
  have ne: "c \<noteq> met"
    using "1.prems" by (auto simp: dfs.simps)
  obtain dirs g1
    where sh: "shuffle [(- 1 :: int, 0 :: int), (0, 1), (1, 0), (0, - 1)] g = (dirs, g1)"
    by (cases "shuffle [(- 1 :: int, 0 :: int), (0, 1), (1, 0), (0, - 1)] g")
  have dirs: "set dirs = unitarias"
    using set_direcciones_dfs [of g] sh by simp
  have "dfs_direcciones F C m met c dirs (insert c visitado) g1 = (False, vis', g')"
    using "1.prems" ne sh by (simp add: dfs.simps)
  then have f: "fallo_dfs F C m met (insert c visitado) vis'"
    and ex: "explorada F C m vis' c"
    using "1.IH" [OF ne sh [symmetric]] dirs unfolding explorada_def by blast+
  have "fallo_dfs F C m met visitado vis'"
    using f ex ne unfolding fallo_dfs_def by blast
  moreover have "c \<in> vis'"
    using f unfolding fallo_dfs_def by blast
  ultimately show ?case by simp
next
  case (2 F C m met c visitado g)
  then show ?case by (simp add: fallo_dfs_def)
next
  case (3 F C m met c d ds visitado g)
  let ?n = "(fst c + fst d, snd c + snd d)"
  show ?case
  proof (cases "en_rango F C ?n \<and> m ?n = 0 \<and> ?n \<notin> visitado")
    case True
    obtain enc v1 g1 where r: "dfs F C m met ?n visitado g = (enc, v1, g1)"
      by (cases "dfs F C m met ?n visitado g")
    have enc: "\<not> enc"
      using "3.prems" True r by (auto split: if_splits)
    have r': "dfs F C m met ?n visitado g = (False, v1, g1)"
      using r enc by simp
    have 1: "?n \<in> v1" "fallo_dfs F C m met visitado v1"
      using "3.IH"(1) [OF True r'] by simp_all
    have "dfs_direcciones F C m met c ds v1 g1 = (False, vis', g')"
      using "3.prems" True r enc by simp
    then have 2: "fallo_dfs F C m met v1 vis'"
      "\<forall>d\<in>set ds. en_rango F C (fst c + fst d, snd c + snd d)
                \<and> m (fst c + fst d, snd c + snd d) = 0
              \<longrightarrow> (fst c + fst d, snd c + snd d) \<in> vis'"
      using "3.IH"(2) [OF True r [symmetric] refl enc] by simp_all
    have "?n \<in> vis'"
      using 1(1) 2(1) unfolding fallo_dfs_def by blast
    then show ?thesis
      using fallo_dfs_trans [OF 1(2) 2(1)] 2(2) by simp
  next
    case False
    then have "dfs_direcciones F C m met c ds visitado g = (False, vis', g')"
      using "3.prems" by auto
    then have 2: "fallo_dfs F C m met visitado vis'"
      "\<forall>d\<in>set ds. en_rango F C (fst c + fst d, snd c + snd d)
                \<and> m (fst c + fst d, snd c + snd d) = 0
              \<longrightarrow> (fst c + fst d, snd c + snd d) \<in> vis'"
      using "3.IH"(3) [OF False] by simp_all
    have "en_rango F C ?n \<and> m ?n = 0 \<longrightarrow> ?n \<in> vis'"
      using False 2(1) unfolding fallo_dfs_def by blast
    then show ?thesis
      using 2 by simp
  qed
qed

lemma explorada_cerrada:
  assumes "alcanzable F C m a b" and "a \<in> V" and "\<And>e. e \<in> V \<Longrightarrow> explorada F C m V e"
  shows "b \<in> V"
  using assms(1)
proof induction
  case aqui
  show ?case by (rule assms(2))
next
  case (paso b c)
  obtain d where d: "d \<in> unitarias" "c = (fst b + fst d, snd b + snd d)"
    using adyacente_es_unitaria [OF paso.hyps(2)] by blast
  have "explorada F C m V b" using paso.IH by (rule assms(3))
  then show ?case
    using d paso.hyps(3,4) unfolding explorada_def by blast
qed

lemma dfs_decide:
  assumes "dfs F C m met ini {} g = (enc, v, g')"
  shows "enc \<longleftrightarrow> alcanzable F C m ini met"
proof (cases enc)
  case True
  then have "dfs F C m met ini {} g = (True, v, g')" using assms by simp
  then have "alcanzable F C m ini met" by (rule dfs_correcto(1))
  then show ?thesis using True by simp
next
  case False
  have "ini \<in> v" and f: "fallo_dfs F C m met {} v"
    using dfs_completo(1) [of F C m met ini "{}" g v g'] assms False by simp_all
  have ex: "\<And>e. e \<in> v \<Longrightarrow> explorada F C m v e" and met: "met \<notin> v"
    using f unfolding fallo_dfs_def by auto
  have "\<not> alcanzable F C m ini met"
    using explorada_cerrada [OF _ \<open>ini \<in> v\<close> ex] met by blast
  then show ?thesis using False by simp
qed

subsection \<open>The repair corridor\<close>

lemma camino_horizontal_eq:
  "camino_horizontal x y t m = (\<lambda>c. if fst c = x \<and> entre y t (snd c) then 0 else m c)"
proof (induction x y t m rule: camino_horizontal.induct)
  case (1 x y t m)
  show ?case
  proof (cases "y = t")
    case True
    then have "camino_horizontal x y t m = m"
      by (subst camino_horizontal.simps) simp
    then show ?thesis
      using True by (auto simp: entre_def)
  next
    case False
    let ?y = "y + (if y < t then 1 else - 1)"
    have "camino_horizontal x y t m = camino_horizontal x ?y t (m((x, ?y) := 0))"
      using False by (subst camino_horizontal.simps) simp
    also have "\<dots> = (\<lambda>c. if fst c = x \<and> entre ?y t (snd c) then 0 else (m((x, ?y) := 0)) c)"
      using 1 [OF False] .
    also have "\<dots> = (\<lambda>c. if fst c = x \<and> entre y t (snd c) then 0 else m c)"
      using False by (auto simp: entre_def fun_eq_iff)
    finally show ?thesis .
  qed
qed

lemma camino_vertical_eq:
  "camino_vertical x y t m = (\<lambda>c. if snd c = y \<and> entre x t (fst c) then 0 else m c)"
proof (induction x y t m rule: camino_vertical.induct)
  case (1 x y t m)
  show ?case
  proof (cases "x = t")
    case True
    then have "camino_vertical x y t m = m"
      by (subst camino_vertical.simps) simp
    then show ?thesis
      using True by (auto simp: entre_def)
  next
    case False
    let ?x = "x + (if x < t then 1 else - 1)"
    have "camino_vertical x y t m = camino_vertical ?x y t (m((?x, y) := 0))"
      using False by (subst camino_vertical.simps) simp
    also have "\<dots> = (\<lambda>c. if snd c = y \<and> entre ?x t (fst c) then 0 else (m((?x, y) := 0)) c)"
      using 1 [OF False] .
    also have "\<dots> = (\<lambda>c. if snd c = y \<and> entre x t (fst c) then 0 else m c)"
      using False by (auto simp: entre_def fun_eq_iff)
    finally show ?thesis .
  qed
qed

lemma crear_camino_eq:
  "crear_camino m ini met c =
     (if (fst c = fst ini \<and> entre (snd ini) (snd met) (snd c))
         \<or> (snd c = snd met \<and> entre (fst ini) (fst met) (fst c)) then 0 else m c)"
  by (auto simp: crear_camino_def camino_vertical_eq camino_horizontal_eq)

lemma crear_camino_cero:
  "crear_camino m ini met c = 0 \<longleftrightarrow>
     m c = 0 \<or> (fst c = fst ini \<and> entre (snd ini) (snd met) (snd c))
     \<or> (snd c = snd met \<and> entre (fst ini) (fst met) (fst c))"
  by (auto simp: crear_camino_eq)

lemma alcanzable_fila:
  assumes "\<And>j. entre y t j \<Longrightarrow> m (x, j) = 0 \<and> en_rango F C (x, j)"
  shows "alcanzable F C m (x, y) (x, t)"
  using assms
proof (induction "nat \<bar>t - y\<bar>" arbitrary: t)
  case 0
  then have "t = y" by simp
  then show ?case by (simp add: alcanzable.aqui)
next
  case (Suc n)
  let ?t = "t + (if y < t then - 1 else 1)"
  have ne: "t \<noteq> y" using Suc.hyps(2) by auto
  have "alcanzable F C m (x, y) (x, ?t)"
  proof (rule Suc.hyps(1))
    show "n = nat \<bar>?t - y\<bar>" using Suc.hyps(2) by auto
    show "m (x, j) = 0 \<and> en_rango F C (x, j)" if "entre y ?t j" for j
      using that ne by (intro Suc.prems) (auto simp: entre_def split: if_splits)
  qed
  moreover have "adyacente (x, ?t) (x, t)"
    by (simp add: adyacente_def)
  moreover have "m (x, t) = 0 \<and> en_rango F C (x, t)"
    using ne by (intro Suc.prems) (auto simp: entre_def)
  ultimately show ?case
    by (blast intro: alcanzable.paso)
qed

lemma alcanzable_columna:
  assumes "\<And>i. entre x t i \<Longrightarrow> m (i, y) = 0 \<and> en_rango F C (i, y)"
  shows "alcanzable F C m (x, y) (t, y)"
  using assms
proof (induction "nat \<bar>t - x\<bar>" arbitrary: t)
  case 0
  then have "t = x" by simp
  then show ?case by (simp add: alcanzable.aqui)
next
  case (Suc n)
  let ?t = "t + (if x < t then - 1 else 1)"
  have ne: "t \<noteq> x" using Suc.hyps(2) by auto
  have "alcanzable F C m (x, y) (?t, y)"
  proof (rule Suc.hyps(1))
    show "n = nat \<bar>?t - x\<bar>" using Suc.hyps(2) by auto
    show "m (i, y) = 0 \<and> en_rango F C (i, y)" if "entre x ?t i" for i
      using that ne by (intro Suc.prems) (auto simp: entre_def split: if_splits)
  qed
  moreover have "adyacente (?t, y) (t, y)"
    by (simp add: adyacente_def)
  moreover have "m (t, y) = 0 \<and> en_rango F C (t, y)"
    using ne by (intro Suc.prems) (auto simp: entre_def)
  ultimately show ?case
    by (blast intro: alcanzable.paso)
qed

lemma entre_interior:
  assumes "a \<in> {1..<N - 1}" "b \<in> {1..<N - 1}" "entre a b k"
  shows "k \<in> {1..<N - 1}"
  using assms by (auto simp: entre_def)

lemma entre_sub: "entre a k j \<Longrightarrow> entre a b k \<Longrightarrow> entre a b j"
  by (auto simp: entre_def)

text \<open>Every cell of the corridor is reachable from the start through the corridor.\<close>

lemma crear_camino_alcanzable:
  assumes ini: "ini \<in> interior F C" and met: "met \<in> interior F C"
    and c: "(fst c = fst ini \<and> entre (snd ini) (snd met) (snd c))
            \<or> (snd c = snd met \<and> entre (fst ini) (fst met) (fst c))"
  shows "alcanzable F C (crear_camino m ini met) ini c"
proof -
  obtain x y where xy: "ini = (x, y)" by (cases ini)
  obtain p q where pq: "met = (p, q)" by (cases met)
  let ?m = "crear_camino m ini met"
  have fila: "?m (x, j) = 0 \<and> en_rango F C (x, j)" if "entre y q j" for j
  proof -
    have "(x, j) \<in> interior F C"
      using ini met that entre_interior [of y C q j] unfolding xy pq interior_def by auto
    then show ?thesis
      using that by (simp add: crear_camino_cero xy pq interior_en_rango)
  qed
  have columna: "?m (i, q) = 0 \<and> en_rango F C (i, q)" if "entre x p i" for i
  proof -
    have "(i, q) \<in> interior F C"
      using ini met that entre_interior [of x F p i] unfolding xy pq interior_def by auto
    then show ?thesis
      using that by (simp add: crear_camino_cero xy pq interior_en_rango)
  qed
  have h: "alcanzable F C ?m (x, y) (x, j)" if "entre y q j \<or> j = q" for j
  proof (rule alcanzable_fila)
    fix k assume "entre y j k"
    then have "entre y q k" using that by (auto simp: entre_def)
    then show "?m (x, k) = 0 \<and> en_rango F C (x, k)" by (rule fila)
  qed
  have v: "alcanzable F C ?m (x, q) (i, q)" if "entre x p i" for i
  proof (rule alcanzable_columna)
    fix k assume "entre x i k"
    then have "entre x p k" using that by (rule entre_sub)
    then show "?m (k, q) = 0 \<and> en_rango F C (k, q)" by (rule columna)
  qed
  from c consider "fst c = x" "entre y q (snd c)" | "snd c = q" "entre x p (fst c)"
    unfolding xy pq by auto
  then show ?thesis
  proof cases
    case 1
    then show ?thesis using h [of "snd c"] unfolding xy by (cases c) simp
  next
    case 2
    have "alcanzable F C ?m (x, y) (fst c, q)"
      using v [OF 2(2)] h [of q] by (blast intro: alcanzable_trans)
    then show ?thesis using 2(1) unfolding xy by (cases c) simp
  qed
qed

lemma crear_camino_meta:
  assumes "ini \<in> interior F C" "met \<in> interior F C" "ini \<noteq> met"
  shows "(fst met = fst ini \<and> entre (snd ini) (snd met) (snd met))
            \<or> (snd met = snd met \<and> entre (fst ini) (fst met) (fst met))"
  using assms by (cases ini, cases met) (auto simp: entre_def)

subsection \<open>The state handed to the solvability check\<close>

lemma valida_interior: "valida (impares F C) c \<Longrightarrow> c \<in> interior F C"
  by (cases c) (auto simp: valida_def impares_def interior_def split: if_splits)

lemma post_tallar_abierto:
  assumes "post_tallar F C m vis bifs"
  shows "abierto F C m"
proof -
  have vis: "vis = impares F C" and t: "tallado (impares F C) m" and le: "\<forall>c. m c \<le> 1"
    and r: "\<exists>orig\<in>impares F C. \<forall>c. m c = 0 \<longrightarrow> alcanzable F C m orig c"
    using assms unfolding post_tallar_def by auto
  have "c \<in> interior F C" if "m c = 0" for c
    using tallado_valida [OF t that] by (rule valida_interior)
  moreover have "m c = 0" if "c \<in> impares F C" for c
    using t that by (rule tallado_vis)
  ultimately show ?thesis
    using le r unfolding abierto_def conexo_def by blast
qed

lemma ciclos_bucle_le:
  assumes "\<forall>c. m c \<le> 1" "ciclos_bucle p cs m g = (m', g')"
  shows "\<forall>c. m' c \<le> 1"
  using assms
proof (induction cs arbitrary: m g)
  case Nil
  then show ?case by simp
next
  case (Cons c cs)
  obtain i j where c: "c = (i, j)" by (cases c)
  obtain m1 g1 where run: "ciclos_bucle p cs m1 g1 = (m', g')" and "m1 = m \<or> m1 = m((i, j) := 0)"
    using Cons.prems(2) c by (auto simp: Let_def case_prod_unfold split: if_splits)
  then have "\<forall>c. m1 c \<le> 1" using Cons.prems(1) by auto
  then show ?case using run by (rule Cons.IH)
qed

lemma ciclos_abierto:
  assumes a: "abierto F C m" and run: "ciclos_bucle p (celdas_ciclos F C) m g = (m', g')"
  shows "abierto F C m'"
proof -
  obtain orig where o: "orig \<in> impares F C" "conexo F C m orig"
    using a unfolding abierto_def by blast
  have post: "conexo F C m' orig" "\<And>c. m c = 0 \<Longrightarrow> m' c = 0"
    "\<And>c. m' c = 0 \<Longrightarrow> m c = 0 \<or> c \<in> set (celdas_ciclos F C)"
    using ciclos_bucle_post [OF celdas_ciclos_interior o(2) run] by blast+
  have "c \<in> interior F C" if "m' c = 0" for c
    using post(3) [OF that] a celdas_ciclos_interior [of F C] unfolding abierto_def by blast
  moreover have "\<forall>c. m c \<le> 1"
    using a unfolding abierto_def by blast
  then have "\<forall>c. m' c \<le> 1"
    using run by (rule ciclos_bucle_le)
  moreover have "m' c = 0" if "c \<in> impares F C" for c
    using that a post(2) unfolding abierto_def by blast
  ultimately show ?thesis
    using o(1) post(1) unfolding abierto_def by blast
qed

lemma esquina_impar: "3 \<le> F \<Longrightarrow> 3 \<le> C \<Longrightarrow> (1, 1) \<in> impares F C"
  by (simp add: impares_def interior_def)

lemma impares_interior: "c \<in> impares F C \<Longrightarrow> c \<in> interior F C"
  by (simp add: impares_def)

lemma establecer_listo:
  assumes F: "3 \<le> F" and C: "3 \<le> C" and a: "abierto F C m"
    and e: "establecer_inicio_meta F C m = (m', ini, met)"
  shows "listo F C m' ini met"
proof -
  have int: "\<And>c. m c = 0 \<Longrightarrow> c \<in> interior F C" and le: "\<And>c. m c \<le> 1"
    and imp: "\<And>c. c \<in> impares F C \<Longrightarrow> m c = 0"
    using a unfolding abierto_def by blast+
  obtain orig where o: "orig \<in> impares F C" "conexo F C m orig"
    using a unfolding abierto_def by blast
  have cam: "set (caminos_interiores F C m) = {c. m c = 0}"
    using int by (auto simp: set_caminos_interiores)
  have esq: "m (1, 1) = 0"
    using esquina_impar [OF F C] by (rule imp)
  have M: "0 \<le> max F C" using F by simp
  from e M show ?thesis
  proof (cases rule: establecer_casos)
    case vacio
    have "(1, 1) \<in> set (caminos_interiores F C m)"
      using cam esq by simp
    then show ?thesis using vacio(1) by simp
  next
    case solo
    have ini: "m ini = 0" using solo(1) cam by simp
    have uno: "\<And>c. m c = 0 \<Longrightarrow> c = ini" using solo(2) cam by auto
    have mi: "met \<in> interior F C"
      using F C by (simp add: solo(3) interior_def)
    have h1: "\<forall>c. m' c = 0 \<longrightarrow> c = met \<or> alcanzable F C m' ini c"
      using uno unfolding solo(4) by (auto intro: alcanzable.aqui)
    have h2: "\<forall>c. m' c = 0 \<longrightarrow> c \<in> interior F C"
      using int mi unfolding solo(4) by auto
    have h3: "\<forall>c. m' c \<le> 1"
      using le unfolding solo(4) by auto
    have h4: "ini \<in> interior F C" using ini by (rule int)
    have h5: "m' ini = 0" "m' met = 0"
      using ini unfolding solo(4) by auto
    show ?thesis
      unfolding listo_def using mi h1 h2 h3 h4 h5 by blast
  next
    case normal
    have ini: "m ini = 0" and met: "m met = 0"
      using normal(1,2) cam by simp_all
    have "conexo F C m ini"
      using o(2) imp [OF o(1)] interior_en_rango [OF impares_interior [OF o(1)]] ini
      by (rule conexo_otro_origen)
    then show ?thesis
      using ini met int le unfolding listo_def normal(4) conexo_def by blast
  qed
qed

lemma garantizar_solucion_eq:
  "garantizar_solucion F C m ini met g =
     (if alcanzable F C m ini met then m else crear_camino m ini met)"
proof -
  obtain enc v g' where r: "dfs F C m met ini {} g = (enc, v, g')"
    by (cases "dfs F C m met ini {} g")
  show ?thesis
    using dfs_decide [OF r] r by (simp add: garantizar_solucion_def)
qed

lemma garantizar_listo:
  assumes l: "listo F C m ini met"
  shows "listo F C (garantizar_solucion F C m ini met g) ini met
         \<and> conexo F C (garantizar_solucion F C m ini met g) ini"
proof (cases "alcanzable F C m ini met")
  case True
  then have eq: "garantizar_solucion F C m ini met g = m"
    by (simp add: garantizar_solucion_eq)
  have "conexo F C m ini"
    using l True unfolding listo_def conexo_def by blast
  then show ?thesis using l eq by simp
next
  case False
  let ?m = "crear_camino m ini met"
  have eq: "garantizar_solucion F C m ini met g = ?m"
    using False by (simp add: garantizar_solucion_eq)
  have ini: "ini \<in> interior F C" and met: "met \<in> interior F C"
    and z: "m ini = 0" "m met = 0" and int: "\<And>c. m c = 0 \<Longrightarrow> c \<in> interior F C"
    and le: "\<And>c. m c \<le> 1" and r: "\<And>c. m c = 0 \<Longrightarrow> c = met \<or> alcanzable F C m ini c"
    using l unfolding listo_def by blast+
  have ne: "ini \<noteq> met" using False by (auto intro: alcanzable.aqui)
  have corr: "alcanzable F C ?m ini c"
    if "(fst c = fst ini \<and> entre (snd ini) (snd met) (snd c))
            \<or> (snd c = snd met \<and> entre (fst ini) (fst met) (fst c))" for c
    using ini met that by (rule crear_camino_alcanzable)
  have rmet: "alcanzable F C ?m ini met"
    using crear_camino_meta [OF ini met ne] by (rule corr)
  have con: "alcanzable F C ?m ini c" if "?m c = 0" for c
  proof -
    from that consider "m c = 0" | "(fst c = fst ini \<and> entre (snd ini) (snd met) (snd c))
            \<or> (snd c = snd met \<and> entre (fst ini) (fst met) (fst c))"
      by (auto simp: crear_camino_cero)
    then show ?thesis
    proof cases
      case 1
      then consider "c = met" | "alcanzable F C m ini c" using r by blast
      then show ?thesis
      proof cases
        case 1
        then show ?thesis using rmet by simp
      next
        case 2
        then show ?thesis by (rule alcanzable_mono) (simp add: crear_camino_cero)
      qed
    next
      case 2
      then show ?thesis by (rule corr)
    qed
  qed
  have inter: "c \<in> interior F C" if "?m c = 0" for c
  proof -
    from that consider "m c = 0" | "fst c = fst ini" "entre (snd ini) (snd met) (snd c)"
      | "snd c = snd met" "entre (fst ini) (fst met) (fst c)"
      by (auto simp: crear_camino_cero)
    then show ?thesis
    proof cases
      case 1
      then show ?thesis by (rule int)
    next
      case 2
      then show ?thesis
        using ini met entre_interior [of "snd ini" C "snd met" "snd c"]
        by (cases c, cases ini, cases met) (auto simp: interior_def)
    next
      case 3
      then show ?thesis
        using ini met entre_interior [of "fst ini" F "fst met" "fst c"]
        by (cases c, cases ini, cases met) (auto simp: interior_def)
    qed
  qed
  have le': "?m c \<le> 1" for c
    using le [of c] by (simp add: crear_camino_eq)
  have "?m ini = 0" "?m met = 0"
    using z by (simp_all add: crear_camino_cero)
  then have "listo F C ?m ini met"
    using ini met inter le' con unfolding listo_def by blast
  moreover have "conexo F C ?m ini"
    using con unfolding conexo_def by blast
  ultimately show ?thesis
    unfolding eq by simp
qed

subsection \<open>A generation, stage by stage\<close>

lemma generar_por_etapas:
  "generar F C complejidad densidad g =
     (case antes_de_garantizar F C complejidad densidad g of
        Inl e \<Rightarrow> Inl e
      | Inr (m, ini, met, g') \<Rightarrow>
          Inr \<lparr>filas = F, columnas = C, matriz = garantizar_solucion F C m ini met g',
               inicio = ini, meta = met\<rparr>)"
  by (simp add: generar_def antes_de_garantizar_def crear_ciclos_def split: sum.splits prod.splits)

lemma antes_de_garantizar_Inl:
  "antes_de_garantizar F C complejidad densidad g = Inl e \<longleftrightarrow> F < 3 \<or> C < 3"
  using tallar_Inl [of F C g e]
  by (auto simp: antes_de_garantizar_def split: sum.splits prod.splits)

lemma antes_de_garantizar_Inr:
  assumes "antes_de_garantizar F C complejidad densidad g = Inr (m, ini, met, g')"
  obtains m1 vis bifs g1 m3 where
    "tallar F C g = Inr (m1, vis, bifs, g1)" "post_tallar F C m1 vis bifs"
    "ciclos_bucle (densidad * (15 / 100)) (celdas_ciclos F C) m1 (snd (shuffle bifs g1)) = (m3, g')"
    "abierto F C m3" "establecer_inicio_meta F C m3 = (m, ini, met)" "listo F C m ini met"
    "3 \<le> F" "3 \<le> C"
proof -
  obtain m1 vis bifs g1 where t: "tallar F C g = Inr (m1, vis, bifs, g1)"
    using assms by (auto simp: antes_de_garantizar_def split: sum.splits)
  have pt: "post_tallar F C m1 vis bifs" using t by (rule tallar_Inr)
  have ag: "agregar_complejidad F C m1 vis bifs (factor_ramificacion complejidad) g1
      = (m1, vis, snd (shuffle bifs g1))"
    using pt by (rule agregar_complejidad_nada)
  obtain m3 g3 where c: "ciclos_bucle (densidad * (15 / 100)) (celdas_ciclos F C) m1
      (snd (shuffle bifs g1)) = (m3, g3)"
    by (cases "ciclos_bucle (densidad * (15 / 100)) (celdas_ciclos F C) m1 (snd (shuffle bifs g1))")
  have e: "establecer_inicio_meta F C m3 = (m, ini, met)" and g3: "g3 = g'"
    using assms t ag c by (auto simp: antes_de_garantizar_def split: prod.splits)
  have a3: "abierto F C m3"
    using post_tallar_abierto [OF pt] c by (rule ciclos_abierto)
  have FC: "3 \<le> F" "3 \<le> C" using pt unfolding post_tallar_def by auto
  have "listo F C m ini met"
    using FC a3 e by (rule establecer_listo)
  then show ?thesis
    using that t pt c a3 e FC unfolding g3 by blast
qed

lemma nuevo_laberinto_generar:
  "3 \<le> F \<Longrightarrow> 3 \<le> C \<Longrightarrow> nuevo_laberinto F C complejidad densidad g = generar F C complejidad densidad g"
  by (simp add: nuevo_laberinto_def)

lemma generar_listo:
  assumes F: "3 \<le> F" and C: "3 \<le> C"
  obtains L m ini met g' where
    "generar F C complejidad densidad g = Inr L"
    "antes_de_garantizar F C complejidad densidad g = Inr (m, ini, met, g')"
    "L = \<lparr>filas = F, columnas = C, matriz = garantizar_solucion F C m ini met g',
           inicio = ini, meta = met\<rparr>"
    "listo F C m ini met" "listo F C (matriz L) (inicio L) (meta L)"
    "conexo F C (matriz L) (inicio L)"
proof -
  obtain r where r: "antes_de_garantizar F C complejidad densidad g = Inr r"
    using antes_de_garantizar_Inl [of F C complejidad densidad g] F C
    by (cases "antes_de_garantizar F C complejidad densidad g") auto
  obtain m ini met g' where p: "r = (m, ini, met, g')"
    by (cases r)
  have l: "listo F C m ini met"
    using r [unfolded p] by (rule antes_de_garantizar_Inr)
  let ?L = "\<lparr>filas = F, columnas = C, matriz = garantizar_solucion F C m ini met g',
           inicio = ini, meta = met\<rparr>"
  have "generar F C complejidad densidad g = Inr ?L"
    using r p by (simp add: generar_por_etapas)
  moreover have "listo F C (matriz ?L) (inicio ?L) (meta ?L)" "conexo F C (matriz ?L) (inicio ?L)"
    using garantizar_listo [OF l, of g'] by simp_all
  ultimately show ?thesis
    using that r p l by blast
qed

subsection \<open>When the forced goal is used\<close>

lemma establecer_abierto_casos:
  assumes F: "3 \<le> F" and C: "3 \<le> C" and a: "abierto F C m"
    and e: "establecer_inicio_meta F C m = (m', ini, met)"
  obtains
    (solo) "F \<le> 4" "C \<le> 4" "ini = (1, 1)" "met = (F - 2, C - 2)" "m' = m(met := 0)"
      "\<And>c. m c = 0 \<Longrightarrow> c = (1, 1)"
  | (normal) "m ini = 0" "m met = 0" "met \<noteq> ini" "m' = m" "conexo F C m ini"
      "ini = py_min (\<lambda>pos. fst pos + snd pos) (candidatos_inicio F C (caminos_interiores F C m))"
      "met = py_max (\<lambda>pos. (F - fst pos - 1) + (C - snd pos - 1))
               (candidatos_meta F C (caminos_interiores F C m) ini)"
      "candidatos_meta F C (caminos_interiores F C m) ini \<noteq> []"
proof -
  have int: "\<And>c. m c = 0 \<Longrightarrow> c \<in> interior F C"
    and imp: "\<And>c. c \<in> impares F C \<Longrightarrow> m c = 0"
    using a unfolding abierto_def by blast+
  obtain orig where o: "orig \<in> impares F C" "conexo F C m orig"
    using a unfolding abierto_def by blast
  have cam: "set (caminos_interiores F C m) = {c. m c = 0}"
    using int by (auto simp: set_caminos_interiores)
  have esq: "m (1, 1) = 0"
    using esquina_impar [OF F C] by (rule imp)
  have M: "0 \<le> max F C" using F by simp
  from e M show ?thesis
  proof (cases rule: establecer_casos)
    case vacio
    have "(1, 1) \<in> set (caminos_interiores F C m)"
      using cam esq by simp
    then show ?thesis using vacio(1) by simp
  next
    case solo
    have uno: "\<And>c. m c = 0 \<Longrightarrow> c = ini" using solo(2) cam by auto
    have ini: "ini = (1, 1)" using uno [OF esq] by simp
    have "F \<le> 4"
    proof (rule ccontr)
      assume "\<not> F \<le> 4"
      then have "(3, 1) \<in> impares F C" using C by (simp add: impares_def interior_def)
      then have "(3, 1) = ini" using imp uno by blast
      then show False using ini by simp
    qed
    moreover have "C \<le> 4"
    proof (rule ccontr)
      assume "\<not> C \<le> 4"
      then have "(1, 3) \<in> impares F C" using F by (simp add: impares_def interior_def)
      then have "(1, 3) = ini" using imp uno by blast
      then show False using ini by simp
    qed
    ultimately show ?thesis
      using that(1) ini solo(3,4) uno by blast
  next
    case normal
    have z: "m ini = 0" "m met = 0"
      using normal(1,2) cam by simp_all
    have "conexo F C m ini"
      using o(2) imp [OF o(1)] interior_en_rango [OF impares_interior [OF o(1)]] z(1)
      by (rule conexo_otro_origen)
    then show ?thesis
      using that(2) z normal(3-7) by blast
  qed
qed

lemma establecer_alcanzable:
  assumes F: "3 \<le> F" and C: "3 \<le> C" and a: "abierto F C m"
    and e: "establecer_inicio_meta F C m = (m', ini, met)" and n: "\<not> (F = 4 \<and> C = 4)"
  shows "alcanzable F C m' ini met"
  using F C a e
proof (cases rule: establecer_abierto_casos)
  case solo
  consider "F = 3" "C = 3" | "F = 3" "C = 4" | "F = 4" "C = 3"
    using F C n solo(1,2) by force
  then show ?thesis
  proof cases
    case 1
    then show ?thesis by (simp add: solo alcanzable.aqui)
  next
    case 2
    have "alcanzable 3 4 (m((1, 2) := 0)) (1, 1) (1, 2)"
      by (rule alcanzable.paso [OF alcanzable.aqui]) (simp_all add: adyacente_def en_rango_def)
    then show ?thesis using 2 by (simp add: solo)
  next
    case 3
    have "alcanzable 4 3 (m((2, 1) := 0)) (1, 1) (2, 1)"
      by (rule alcanzable.paso [OF alcanzable.aqui]) (simp_all add: adyacente_def en_rango_def)
    then show ?thesis using 3 by (simp add: solo)
  qed
next
  case normal
  then show ?thesis by (simp add: conexoD)
qed

lemma establecer_distintos:
  assumes F: "3 \<le> F" and C: "3 \<le> C" and a: "abierto F C m"
    and e: "establecer_inicio_meta F C m = (m', ini, met)"
  shows "ini = met \<longleftrightarrow> F = 3 \<and> C = 3"
  using F C a e
proof (cases rule: establecer_abierto_casos)
  case solo
  then show ?thesis by auto
next
  case normal
  have "m (1, 1) = 0"
    using esquina_impar [OF F C] a unfolding abierto_def by blast
  moreover have "(1, 1) \<in> interior F C"
    using esquina_impar [OF F C] by (rule impares_interior)
  moreover have "\<And>c. c \<in> interior 3 3 \<Longrightarrow> c = (1, 1)"
    by (auto simp: interior_def)
  moreover have "\<And>c. m c = 0 \<Longrightarrow> c \<in> interior F C"
    using a unfolding abierto_def by blast
  ultimately have "\<not> (F = 3 \<and> C = 3)"
    using normal(1,2,3) by metis
  then show ?thesis using normal(3) by auto
qed

subsection \<open>The smallest grids\<close>

lemma vecinos_libres_3_3: "vecinos_libres 3 3 {(1, 1)} 1 1 ds = []"
  by (auto simp: vecinos_libres_def libre_def filter_empty_conv)

lemma tallado_4_4:
  assumes "tallado (impares 4 4) m" "m c = 0"
  shows "c = (1, 1)"
proof -
  have "valida (impares 4 4) c" using assms by (rule tallado_valida)
  then show ?thesis
    by (cases c) (auto simp: valida_def impares_def interior_def split: if_splits; presburger)
qed

lemma celdas_ciclos_4_4: "celdas_ciclos 4 4 = []"
  by (simp add: celdas_ciclos_def rango_par_def)

lemma antes_de_garantizar_4_4:
  assumes "antes_de_garantizar 4 4 complejidad densidad g = Inr (m, ini, met, g')"
  shows "ini = (1, 1) \<and> met = (2, 2) \<and> \<not> alcanzable 4 4 m ini met"
  using assms
proof (rule antes_de_garantizar_Inr)
  fix m1 vis bifs g1 m3
  assume pt: "post_tallar 4 4 m1 vis bifs"
    and c: "ciclos_bucle (densidad * (15 / 100)) (celdas_ciclos 4 4) m1 (snd (shuffle bifs g1)) = (m3, g')"
    and a: "abierto 4 4 m3" and e: "establecer_inicio_meta 4 4 m3 = (m, ini, met)"
  have m3: "m3 = m1" using c by (simp add: celdas_ciclos_4_4)
  have t: "tallado (impares 4 4) m1"
    using pt unfolding post_tallar_def by blast
  have uno: "\<And>c. m3 c = 0 \<Longrightarrow> c = (1, 1)"
    unfolding m3 using t by (rule tallado_4_4)
  have "(3 :: int) \<le> 4" by simp
  from this this a e show ?thesis
  proof (cases rule: establecer_abierto_casos)
    case solo
    let ?V = "{(1 :: int, 1 :: int)}"
    have nz: "m3 c \<noteq> 0" if "c \<noteq> (1, 1)" for c
      using that uno by blast
    have ex: "explorada 4 4 m ?V e" if "e \<in> ?V" for e
      using that nz [of "(0, 1)"] nz [of "(1, 2)"] nz [of "(2, 1)"] nz [of "(1, 0)"]
      unfolding solo(5) solo(4) explorada_def unitarias_def
      by (auto simp: en_rango_def)
    have "\<not> alcanzable 4 4 m (1, 1) (2, 2)"
      using explorada_cerrada [of 4 4 m "(1, 1)" "(2, 2)" ?V] ex by auto
    then show ?thesis using solo by simp
  next
    case normal
    then show ?thesis using uno by metis
  qed
qed

lemma shuffle_Nil: "shuffle [] g = ([], g)"
  by (simp add: shuffle_def)

lemma antes_de_garantizar_4_4_sconst:
  "antes_de_garantizar 4 4 (1 / 2) (1 / 2) (sconst 0)
     = Inr ((\<lambda>c. 1)((1, 1) := 0, (2, 2) := 0), (1, 1), (2, 2), sconst 0)"
  by (simp add: antes_de_garantizar_def tallar_def randrange_sconst direcciones_iniciales_def
      shuffle4_sconst vecinos_libres_def libre_def agregar_complejidad_def shuffle_Nil
      bifurcaciones_elegidas_def celdas_ciclos_def rango_par_def establecer_inicio_meta_def
      caminos_interiores_def candidatos_inicio_def candidatos_meta_def upto_rec1 Let_def)

lemma dfs_4_4_sconst:
  "dfs 4 4 ((\<lambda>c. 1)((1, 1) := 0, (2, 2) := 0)) (2, 2) (1, 1) {} (sconst 0)
     = (False, {(1, 1)}, sconst 0)"
  by (simp add: dfs.simps shuffle4_sconst en_rango_def)

lemma nuevo_laberinto_4_4_sconst:
  "nuevo_laberinto 4 4 (1 / 2) (1 / 2) (sconst 0)
     = Inr \<lparr>filas = 4, columnas = 4, matriz = (\<lambda>c. 1)((1, 1) := 0, (2, 2) := 0, (1, 2) := 0),
            inicio = (1, 1), meta = (2, 2)\<rparr>"
  by (simp del: One_nat_def add: nuevo_laberinto_def generar_por_etapas
      antes_de_garantizar_4_4_sconst garantizar_solucion_def dfs_4_4_sconst crear_camino_def
      camino_horizontal.simps camino_vertical.simps fun_eq_iff)

lemma nuevo_laberinto_3_3:
  "nuevo_laberinto 3 3 complejidad densidad g
     = Inr \<lparr>filas = 3, columnas = 3, matriz = (\<lambda>c. 1)((1, 1) := 0),
            inicio = (1, 1), meta = (1, 1)\<rparr>"
  by (simp del: One_nat_def add: nuevo_laberinto_def generar_def crear_ciclos_def tallar_def
      randrange_def randbelow_def direcciones_iniciales_def vecinos_libres_3_3
      agregar_complejidad_def shuffle_Nil bifurcaciones_elegidas_def celdas_ciclos_def
      rango_par_def establecer_inicio_meta_def caminos_interiores_def candidatos_inicio_def
      candidatos_meta_def upto_rec1 Let_def garantizar_solucion_def dfs.simps
      case_prod_unfold)

subsection \<open>The quadrants of start and goal\<close>

lemma candidatos_inicio_cuadrante:
  assumes "(a, b) \<in> set cam" "a < F div 2" "b < C div 2" and "c \<in> set (candidatos_inicio F C cam)"
  shows "c \<in> set cam \<and> fst c < F div 2 \<and> snd c < C div 2"
proof -
  have "filter (\<lambda>(i, j). i < F div 2 \<and> j < C div 2) cam \<noteq> []"
    using assms(1-3) by (auto simp: filter_empty_conv)
  then have "candidatos_inicio F C cam = filter (\<lambda>(i, j). i < F div 2 \<and> j < C div 2) cam"
    by (simp add: candidatos_inicio_def Let_def)
  then show ?thesis
    using assms(4) by (cases c) auto
qed

lemma candidatos_inicio_contiene:
  assumes "(a, b) \<in> set cam" "a < F div 2" "b < C div 2"
  shows "(a, b) \<in> set (candidatos_inicio F C cam)"
proof -
  have "filter (\<lambda>(i, j). i < F div 2 \<and> j < C div 2) cam \<noteq> []"
    using assms(1-3) by (auto simp: filter_empty_conv)
  then have "candidatos_inicio F C cam = filter (\<lambda>(i, j). i < F div 2 \<and> j < C div 2) cam"
    by (simp add: candidatos_inicio_def Let_def)
  then show ?thesis
    using assms by simp
qed

lemma candidatos_meta_cuadrante:
  assumes "(a, b) \<in> set cam" "F div 2 \<le> a" "C div 2 \<le> b"
    "max F C div 2 < \<bar>a - fst ini\<bar> + \<bar>b - snd ini\<bar>"
    and "c \<in> set (candidatos_meta F C cam ini)"
  shows "F div 2 \<le> fst c \<and> C div 2 \<le> snd c"
proof -
  let ?P = "\<lambda>(i, j). F div 2 \<le> i \<and> C div 2 \<le> j \<and> max F C div 2 < \<bar>i - fst ini\<bar> + \<bar>j - snd ini\<bar>"
  have "filter ?P cam \<noteq> []"
    using assms(1-4) by (auto simp: filter_empty_conv)
  then have "candidatos_meta F C cam ini = filter ?P cam"
    by (simp add: candidatos_meta_def Let_def)
  then show ?thesis
    using assms(5) by (cases c) auto
qed

lemma impar_lejano:
  assumes "10 \<le> N"
  shows "odd (impar_lejano N)" "1 \<le> impar_lejano N" "impar_lejano N < N - 1"
    "N div 2 \<le> impar_lejano N" "N - 3 \<le> impar_lejano N"
  using assms by (auto simp: impar_lejano_def)

lemma establecer_cuadrantes:
  assumes F: "10 \<le> F" and C: "10 \<le> C" and a: "abierto F C m"
    and e: "establecer_inicio_meta F C m = (m', ini, met)"
  shows "ini = (1, 1) \<and> F div 2 \<le> fst met \<and> C div 2 \<le> snd met"
proof -
  have F3: "3 \<le> F" and C3: "3 \<le> C" using F C by simp_all
  have int: "\<And>c. m c = 0 \<Longrightarrow> c \<in> interior F C"
    and imp: "\<And>c. c \<in> impares F C \<Longrightarrow> m c = 0"
    using a unfolding abierto_def by blast+
  have cam: "set (caminos_interiores F C m) = {c. m c = 0}"
    using int by (auto simp: set_caminos_interiores)
  from F3 C3 a e show ?thesis
  proof (cases rule: establecer_abierto_casos)
    case solo
    then show ?thesis using F by simp
  next
    case normal
    let ?cam = "caminos_interiores F C m"
    have esq: "(1, 1) \<in> set ?cam"
      using imp [OF esquina_impar [OF F3 C3]] cam by simp
    have h: "1 < F div 2" "1 < C div 2" using F C by simp_all
    have c0: "candidatos_inicio F C ?cam \<noteq> []"
      using candidatos_inicio_contiene [OF esq h] by auto
    have "ini \<in> set (candidatos_inicio F C ?cam)"
      unfolding normal(6) using c0 by (rule py_min_in)
    then have "ini \<in> set ?cam"
      using candidatos_inicio_cuadrante [OF esq h] by blast
    then have i1: "1 \<le> fst ini" "1 \<le> snd ini"
      using int [of ini] cam by (auto simp: interior_def)
    have "fst ini + snd ini \<le> fst (1 :: int, 1 :: int) + snd (1 :: int, 1 :: int)"
      unfolding normal(6)
      using candidatos_inicio_contiene [OF esq h] by (rule py_min_le)
    then have ini: "ini = (1, 1)"
      using i1 by (cases ini) auto
    let ?a = "impar_lejano F" and ?b = "impar_lejano C"
    have "(?a, ?b) \<in> impares F C"
      using impar_lejano [OF F] impar_lejano [OF C] by (simp add: impares_def interior_def)
    then have lej: "(?a, ?b) \<in> set ?cam"
      using imp cam by simp
    have d: "max F C div 2 < \<bar>?a - fst ini\<bar> + \<bar>?b - snd ini\<bar>"
      using impar_lejano(5) [OF F] impar_lejano(5) [OF C] F C unfolding ini by auto
    have "met \<in> set (candidatos_meta F C ?cam ini)"
      unfolding normal(7) using normal(8) by (rule py_max_in)
    then have "F div 2 \<le> fst met \<and> C div 2 \<le> snd met"
      using candidatos_meta_cuadrante [OF lej impar_lejano(4) [OF F] impar_lejano(4) [OF C] d]
      by blast
    then show ?thesis using ini by simp
  qed
qed

subsection \<open>Trees of cells\<close>

lemma adyacente_irrefl: "\<not> adyacente c c"
  by (simp add: adyacente_def)

lemma aristas_raiz: "aristas {c} = {}"
  by (auto simp: aristas_def adyacente_irrefl)

lemma aristas_hoja:
  assumes "c \<notin> S" "d \<in> S" "adyacente c d" "\<And>e. e \<in> S \<Longrightarrow> adyacente c e \<Longrightarrow> e = d"
  shows "aristas (insert c S) = insert {c, d} (aristas S)" "{c, d} \<notin> aristas S"
proof -
  show "aristas (insert c S) = insert {c, d} (aristas S)"
  proof (intro equalityI subsetI)
    fix x assume "x \<in> aristas (insert c S)"
    then obtain a b where x: "x = {a, b}" "a \<in> insert c S" "b \<in> insert c S" "adyacente a b"
      unfolding aristas_def by blast
    consider "a \<in> S" "b \<in> S" | "a = c" "b \<in> S" | "a \<in> S" "b = c" | "a = c" "b = c"
      using x(2,3) by blast
    then show "x \<in> insert {c, d} (aristas S)"
    proof cases
      case 1
      then show ?thesis using x(1,4) unfolding aristas_def by blast
    next
      case 2
      then have "b = d" using assms(4) x(4) by blast
      then show ?thesis using 2 x(1) by simp
    next
      case 3
      then have "a = d" using assms(4) x(4) adyacente_sym by blast
      then show ?thesis using 3 x(1) by (simp add: insert_commute)
    next
      case 4
      then show ?thesis using x(4) adyacente_irrefl by simp
    qed
  next
    fix x assume "x \<in> insert {c, d} (aristas S)"
    then show "x \<in> aristas (insert c S)"
      using assms(2,3) unfolding aristas_def by blast
  qed
  show "{c, d} \<notin> aristas S"
  proof
    assume "{c, d} \<in> aristas S"
    then obtain a b where "{c, d} = {a, b}" "a \<in> S" "b \<in> S"
      unfolding aristas_def by blast
    then have "c \<in> S" by (metis insert_iff singletonD)
    then show False using assms(1) by simp
  qed
qed

lemma arbol_aristas:
  assumes "arbol S"
  shows "finite S \<and> finite (aristas S) \<and> card (aristas S) + 1 = card S"
  using assms
proof induction
  case (raiz c)
  show ?case by (simp add: aristas_raiz)
next
  case (hoja S c d)
  have e: "aristas (insert c S) = insert {c, d} (aristas S)" "{c, d} \<notin> aristas S"
    using aristas_hoja [OF hoja.hyps(2-4)] hoja.hyps(5) by blast+
  show ?case
    using hoja.IH hoja.hyps(2) e by simp
qed

subsection \<open>The cycle stage under two densities\<close>

lemma length_filter_mono:
  assumes "\<And>x. P x \<Longrightarrow> Q x"
  shows "length (filter P xs) \<le> length (filter Q xs)"
  using assms by (induction xs) auto

lemma ciclos_bucle_paso:
  "ciclos_bucle p ((i, j) # cs) m g =
     (if m (i, j) = 1 \<and> (m (i - 1, j) = 0 \<and> m (i + 1, j) = 0
                          \<or> m (i, j - 1) = 0 \<and> m (i, j + 1) = 0)
      then (if fst (random_py g) < p
            then ciclos_bucle p cs (m((i, j) := 0)) (snd (random_py g))
            else ciclos_bucle p cs m (snd (random_py g)))
      else ciclos_bucle p cs m g)"
  by (simp add: Let_def case_prod_unfold)

lemma ciclos_bucle_acoplado:
  assumes p: "p1 \<le> p2" and dist: "distinct cs"
    and par: "\<And>c. c \<in> set cs \<Longrightarrow> even (fst c) \<and> even (snd c)"
    and dif: "\<And>c. ma c \<noteq> mb c \<Longrightarrow> even (fst c) \<and> even (snd c) \<and> c \<notin> set cs \<and> mb c = 0"
    and ra: "ciclos_bucle p1 cs ma g = (ma', ga)" and rb: "ciclos_bucle p2 cs mb g = (mb', gb)"
  shows "ga = gb \<and> (\<forall>c. ma' c = 0 \<longrightarrow> mb' c = 0)"
  using dist par dif ra rb
proof (induction cs arbitrary: ma mb g)
  case Nil
  have "mb c = 0" if "ma c = 0" for c
    using Nil.prems(3) [of c] that by (cases "ma c = mb c") auto
  then show ?case using Nil.prems(4,5) by simp
next
  case (Cons c cs)
  obtain i j where c: "c = (i, j)" by (cases c)
  have ev: "even i" "even j" using Cons.prems(2) [of c] c by simp_all
  have nin: "(i, j) \<notin> set cs" and dist: "distinct cs"
    using Cons.prems(1) c by simp_all
  have par: "\<And>k. k \<in> set cs \<Longrightarrow> even (fst k) \<and> even (snd k)"
    using Cons.prems(2) by simp
  have igual: "ma k = mb k" if "odd (fst k) \<or> odd (snd k) \<or> k = (i, j)" for k
    using Cons.prems(3) [of k] that c by auto
  have e0: "ma (i, j) = mb (i, j)" by (rule igual) simp
  have e1: "ma (i - 1, j) = mb (i - 1, j)" "ma (i + 1, j) = mb (i + 1, j)"
    "ma (i, j - 1) = mb (i, j - 1)" "ma (i, j + 1) = mb (i, j + 1)"
    using ev by (auto intro!: igual)
  define q where "q \<longleftrightarrow> mb (i, j) = 1 \<and> (mb (i - 1, j) = 0 \<and> mb (i + 1, j) = 0
                             \<or> mb (i, j - 1) = 0 \<and> mb (i, j + 1) = 0)"
  let ?u = "fst (random_py g)" and ?g = "snd (random_py g)"
  have dif0: "even (fst k) \<and> even (snd k) \<and> k \<notin> set cs \<and> mb k = 0" if "ma k \<noteq> mb k" for k
    using Cons.prems(3) [OF that] by simp
  have sa: "ciclos_bucle p1 (c # cs) ma g =
     (if q then (if ?u < p1 then ciclos_bucle p1 cs (ma((i, j) := 0)) ?g
                  else ciclos_bucle p1 cs ma ?g)
      else ciclos_bucle p1 cs ma g)"
    unfolding c ciclos_bucle_paso e0 e1 q_def by (rule refl)
  have sb: "ciclos_bucle p2 (c # cs) mb g =
     (if q then (if ?u < p2 then ciclos_bucle p2 cs (mb((i, j) := 0)) ?g
                  else ciclos_bucle p2 cs mb ?g)
      else ciclos_bucle p2 cs mb g)"
    unfolding c ciclos_bucle_paso q_def by (rule refl)
  note ra = Cons.prems(4) [unfolded sa] and rb = Cons.prems(5) [unfolded sb]
  show ?case
  proof (cases q)
    case False
    have "ciclos_bucle p1 cs ma g = (ma', ga)" "ciclos_bucle p2 cs mb g = (mb', gb)"
      using ra rb False by simp_all
    then show ?thesis
      using Cons.IH [OF dist par dif0] by blast
  next
    case True
    consider "?u < p1" | "p1 \<le> ?u" "?u < p2" | "p2 \<le> ?u"
      by linarith
    then show ?thesis
    proof cases
      case 1
      then have u2: "?u < p2" using p by simp
      have r: "ciclos_bucle p1 cs (ma((i, j) := 0)) ?g = (ma', ga)"
        "ciclos_bucle p2 cs (mb((i, j) := 0)) ?g = (mb', gb)"
        using ra rb True 1 u2 by simp_all
      have "even (fst k) \<and> even (snd k) \<and> k \<notin> set cs \<and> (mb((i, j) := 0)) k = 0"
        if "(ma((i, j) := 0)) k \<noteq> (mb((i, j) := 0)) k" for k
        using that dif0 [of k] by (auto split: if_splits)
      then show ?thesis
        using Cons.IH [OF dist par _ r] by blast
    next
      case 2
      have r: "ciclos_bucle p1 cs ma ?g = (ma', ga)"
        "ciclos_bucle p2 cs (mb((i, j) := 0)) ?g = (mb', gb)"
        using ra rb True 2 by simp_all
      have "even (fst k) \<and> even (snd k) \<and> k \<notin> set cs \<and> (mb((i, j) := 0)) k = 0"
        if "ma k \<noteq> (mb((i, j) := 0)) k" for k
        using that dif0 [of k] ev nin by (auto split: if_splits)
      then show ?thesis
        using Cons.IH [OF dist par _ r] by blast
    next
      case 3
      then have u1: "p1 \<le> ?u" using p by simp
      have r: "ciclos_bucle p1 cs ma ?g = (ma', ga)" "ciclos_bucle p2 cs mb ?g = (mb', gb)"
        using ra rb True 3 u1 by simp_all
      show ?thesis
        using Cons.IH [OF dist par dif0 r] by blast
    qed
  qed
qed

lemma celdas_ciclos_distintas: "distinct (celdas_ciclos F C)"
  by (simp add: celdas_ciclos_def rango_par_def distinct_product)

lemma celdas_ciclos_pares: "c \<in> set (celdas_ciclos F C) \<Longrightarrow> even (fst c) \<and> even (snd c)"
  by (auto simp: celdas_ciclos_def rango_par_def)

lemma celdas_ciclos_no_vacio:
  assumes "celdas_ciclos F C \<noteq> []"
  shows "5 \<le> F \<and> 5 \<le> C"
proof -
  obtain c where "c \<in> set (celdas_ciclos F C)"
    using assms by (cases "celdas_ciclos F C") auto
  then show ?thesis
    by (auto simp: celdas_ciclos_def rango_par_def)
qed

lemma sin_reparar:
  assumes F: "5 \<le> F" and C: "5 \<le> C" and a: "abierto F C m3"
    and e: "establecer_inicio_meta F C m3 = (m, ini, met)"
  shows "garantizar_solucion F C m ini met g = m3"
proof -
  have "3 \<le> F" "3 \<le> C" using F C by simp_all
  from this a e show ?thesis
  proof (cases rule: establecer_abierto_casos)
    case solo
    then show ?thesis using F by simp
  next
    case normal
    have "alcanzable F C m3 ini met"
      using normal(5,2) by (rule conexoD)
    then show ?thesis
      by (simp add: garantizar_solucion_eq normal(4))
  qed
qed

subsection \<open>The start is the top-left interior cell\<close>

lemma candidatos_inicio_esquina:
  assumes "(1, 1) \<in> set cam" "\<And>c. c \<in> set cam \<Longrightarrow> 1 \<le> fst c \<and> 1 \<le> snd c"
  shows "(1, 1) \<in> set (candidatos_inicio F C cam)"
proof -
  let ?c1 = "filter (\<lambda>(i, j). i < F div 2 \<and> j < C div 2) cam"
  let ?c2 = "filter (\<lambda>(i, j). j < C div 2) cam"
  show ?thesis
  proof (cases "1 < F div 2 \<and> 1 < C div 2")
    case True
    then show ?thesis using assms(1) by (rule_tac candidatos_inicio_contiene) simp_all
  next
    case False
    have c1: "?c1 = []"
      using False assms(2) by (fastforce simp: filter_empty_conv)
    show ?thesis
    proof (cases "1 < C div 2")
      case True
      then have "(1, 1) \<in> set ?c2" using assms(1) by simp
      then show ?thesis
        using c1 by (auto simp: candidatos_inicio_def Let_def)
    next
      case False
      have "?c2 = []"
        using False assms(2) by (fastforce simp: filter_empty_conv)
      then show ?thesis
        using c1 assms(1) by (simp add: candidatos_inicio_def Let_def)
    qed
  qed
qed

lemma establecer_inicio_esquina:
  assumes F: "3 \<le> F" and C: "3 \<le> C" and a: "abierto F C m"
    and e: "establecer_inicio_meta F C m = (m', ini, met)"
  shows "ini = (1, 1)"
  using F C a e
proof (cases rule: establecer_abierto_casos)
  case solo
  then show ?thesis by simp
next
  case normal
  let ?cam = "caminos_interiores F C m"
  have int: "\<And>c. m c = 0 \<Longrightarrow> c \<in> interior F C"
    and imp: "\<And>c. c \<in> impares F C \<Longrightarrow> m c = 0"
    using a unfolding abierto_def by blast+
  have cam: "set ?cam = {c. m c = 0}"
    using int by (auto simp: set_caminos_interiores)
  have esq: "(1, 1) \<in> set ?cam"
    using imp [OF esquina_impar [OF F C]] cam by simp
  have pos: "1 \<le> fst c \<and> 1 \<le> snd c" if "c \<in> set ?cam" for c
  proof -
    have "c \<in> interior F C" using that cam int by blast
    then show ?thesis by (auto simp: interior_def)
  qed
  have in1: "(1, 1) \<in> set (candidatos_inicio F C ?cam)"
    using esq pos by (rule candidatos_inicio_esquina)
  then have ne: "candidatos_inicio F C ?cam \<noteq> []"
    by auto
  have "ini \<in> set (candidatos_inicio F C ?cam)"
    unfolding normal(6) using ne by (rule py_min_in)
  then have "1 \<le> fst ini \<and> 1 \<le> snd ini"
    using candidatos_inicio_sub pos by blast
  moreover have "fst ini + snd ini \<le> fst (1 :: int, 1 :: int) + snd (1 :: int, 1 :: int)"
    unfolding normal(6) using in1 by (rule py_min_le)
  ultimately show ?thesis
    by (cases ini) auto
qed

subsection \<open>Rounding to binary64\<close>

lemma redondeo_par_nonneg: "0 \<le> x \<Longrightarrow> 0 \<le> redondeo_par x"
  by (simp add: redondeo_par_def)

lemma redondeo_par_cota: "of_int (redondeo_par x) \<le> x + 1 / 2"
  unfolding redondeo_par_def by (simp; linarith)

lemma doble_nonneg: "0 \<le> x \<Longrightarrow> 0 \<le> doble x"
  by (simp add: doble_def redondeo_par_nonneg)

lemma exponente_eq:
  assumes "0 < x" "2 powr (of_int k) \<le> x" "x < 2 powr (of_int k + 1)" "- 1022 \<le> k"
  shows "exponente x = k"
proof -
  have "\<lfloor>log 2 x\<rfloor> = k"
    using assms by (subst floor_log_eq_powr_iff) simp_all
  then show ?thesis
    using assms by (simp add: exponente_def)
qed

lemma doble_eval:
  assumes "0 < x" "2 powr (of_int k) \<le> x" "x < 2 powr (of_int k + 1)" "- 1022 \<le> k"
  shows "doble x = of_int (redondeo_par (x * 2 powr (52 - of_int k))) / 2 powr (52 - of_int k)"
proof -
  have e: "exponente x = k"
    using assms by (rule exponente_eq)
  have "(2::real) powr (of_int k - 52) = inverse (2 powr (52 - of_int k))" for k :: int
    by (simp add: powr_minus [symmetric])
  then show ?thesis
    using assms(1) by (simp add: doble_def e divide_inverse)
qed

lemma ulp_cota:
  assumes "0 < x"
  shows "2 powr (of_int (exponente x) - 52) \<le> x / 2 + 1 / 2"
proof (cases "- 1022 \<le> \<lfloor>log 2 x\<rfloor>")
  case True
  then have e: "exponente x = \<lfloor>log 2 x\<rfloor>"
    using assms by (simp add: exponente_def)
  have "(2::real) powr (of_int \<lfloor>log 2 x\<rfloor>) \<le> 2 powr (log 2 x)"
    by (rule powr_mono) simp_all
  then have a: "(2::real) powr (of_int \<lfloor>log 2 x\<rfloor>) \<le> x"
    using assms by simp
  have "(2::real) powr (of_int \<lfloor>log 2 x\<rfloor> - 52) = 2 powr (of_int \<lfloor>log 2 x\<rfloor>) * 2 powr (- 52)"
    by (simp add: powr_add [symmetric])
  also have "\<dots> \<le> 2 powr (of_int \<lfloor>log 2 x\<rfloor>) * (1 / 2)"
    by (rule mult_left_mono) (simp_all add: powr_neg_numeral)
  also have "\<dots> \<le> x / 2"
    using a by simp
  finally show ?thesis
    using assms by (simp add: e)
next
  case False
  then have e: "exponente x = - 1022"
    using assms by (simp add: exponente_def)
  have "(2::real) powr (- 1074) \<le> 2 powr (- 1)"
    by (rule powr_mono) simp_all
  then have "(2::real) powr (- 1074) \<le> 1 / 2"
    by (simp add: powr_minus)
  then show ?thesis
    using assms by (simp add: e)
qed

lemma doble_cota:
  assumes "0 \<le> x"
  shows "doble x \<le> (5 / 4) * x + 1 / 4"
proof (cases "x = 0")
  case True
  then show ?thesis by (simp add: doble_def)
next
  case False
  then have x: "0 < x" using assms by simp
  define u :: real where "u = 2 powr (of_int (exponente x) - 52)"
  have u0: "0 < u" by (simp add: u_def)
  have "doble x = of_int (redondeo_par (x / u)) * u"
    using False by (simp add: doble_def u_def)
  also have "\<dots> \<le> (x / u + 1 / 2) * u"
    using u0 redondeo_par_cota [of "x / u"] by (simp add: mult_right_mono)
  also have "\<dots> = x + u / 2"
    using u0 by (simp add: field_simps)
  also have "\<dots> \<le> x + (x / 2 + 1 / 2) / 2"
    using ulp_cota [OF x] by (simp add: u_def)
  finally show ?thesis by (simp add: field_simps)
qed

lemma doble_3_10: "doble (3 / 10) = 5404319552844595 / 2 ^ 54"
  by (subst doble_eval [of _ "- 2"]) (simp_all add: powr_neg_numeral redondeo_par_def)

lemma doble_4_10: "doble (4 / 10) = 3602879701896397 / 2 ^ 53"
  by (subst doble_eval [of _ "- 2"]) (simp_all add: powr_neg_numeral redondeo_par_def)


lemma doble_7_10: "doble (7 / 10) = 3152519739159347 / 2 ^ 52"
  by (subst doble_eval [of _ "- 1"]) (simp_all add: powr_neg_numeral powr_minus redondeo_par_def)

lemma doble_6_10: "doble (6 / 10) = 5404319552844595 / 2 ^ 53"
  by (subst doble_eval [of _ "- 1"]) (simp_all add: powr_neg_numeral powr_minus redondeo_par_def)

lemma doble_entero_3: "doble 3 = 3"
  by (subst doble_eval [of _ 1]) (simp_all add: redondeo_par_def)

lemma doble_25: "doble 25 = 25"
  by (subst doble_eval [of _ 4]) (simp_all add: redondeo_par_def)

lemma doble_0 [simp]: "doble 0 = 0"
  by (simp add: doble_def)

lemma redondeo_par_nonpos: "x \<le> 0 \<Longrightarrow> redondeo_par x \<le> 0"
  unfolding redondeo_par_def by (simp; linarith)

lemma doble_nonpos: "x \<le> 0 \<Longrightarrow> doble x \<le> 0"
  by (simp add: doble_def mult_le_0_iff redondeo_par_nonpos divide_nonpos_pos)

lemma factor_ramificacion_cota: "factor_ramificacion complejidad \<le> 3 / 10"
proof -
  have "factor_ramificacion complejidad \<le> doble (3 / 10)"
    by (simp add: factor_ramificacion_def)
  also have "\<dots> \<le> 3 / 10"
    by (simp add: doble_3_10)
  finally show ?thesis .
qed

lemma factor_ramificacion_nonneg: "0 \<le> complejidad \<Longrightarrow> 0 \<le> factor_ramificacion complejidad"
  by (simp add: factor_ramificacion_def doble_nonneg)

lemma producto_cota:
  assumes "factor \<le> 3 / 10"
  shows "\<lfloor>doble (doble (real n) * factor)\<rfloor> \<le> int n"
proof (cases "0 \<le> factor \<and> 0 < n")
  case True
  define d where "d = doble (real n)"
  define p where "p = d * factor"
  have n: "1 \<le> real n" using True by simp
  have d0: "0 \<le> d" by (simp add: d_def doble_nonneg)
  have d1: "d \<le> (5 / 4) * real n + 1 / 4"
    unfolding d_def by (rule doble_cota) simp
  have p0: "0 \<le> p" using d0 True by (simp add: p_def)
  have "p \<le> d * (3 / 10)"
    unfolding p_def using assms d0 by (rule mult_left_mono)
  then have p1: "p \<le> ((5 / 4) * real n + 1 / 4) * (3 / 10)"
    using d1 by simp
  have "doble p \<le> (5 / 4) * p + 1 / 4"
    using p0 by (rule doble_cota)
  then have "doble p \<le> real n"
    using p1 n by simp
  then show ?thesis
    by (simp add: floor_le_iff p_def d_def)
next
  case False
  have "doble (real n) * factor \<le> 0"
  proof (cases "n = 0")
    case True
    then show ?thesis by simp
  next
    case n: False
    then have "factor < 0" using False by simp
    moreover have "0 \<le> doble (real n)" by (simp add: doble_nonneg)
    ultimately show ?thesis by (simp add: mult_le_0_iff)
  qed
  then have "doble (doble (real n) * factor) \<le> 0"
    by (rule doble_nonpos)
  then have "\<lfloor>doble (doble (real n) * factor)\<rfloor> \<le> 0"
    by (simp add: floor_le_iff)
  moreover have "(0 :: int) \<le> int n"
    by simp
  ultimately show ?thesis
    by (rule order_trans)
qed

lemma bifurcaciones_elegidas_take:
  "bifurcaciones_elegidas barajadas factor
     = take (nat \<lfloor>doble (doble (real (length barajadas)) * factor)\<rfloor>) barajadas"
proof -
  let ?p = "doble (doble (real (length barajadas)) * factor)"
  have eq: "nat (truncar ?p) = nat \<lfloor>?p\<rfloor>"
  proof (cases "0 \<le> ?p")
    case True
    then show ?thesis by (simp add: truncar_def)
  next
    case False
    then have "\<lceil>?p\<rceil> \<le> 0" and "\<lfloor>?p\<rfloor> \<le> 0"
      by (simp_all add: ceiling_le_iff floor_le_iff)
    then show ?thesis using False by (simp add: truncar_def)
  qed
  have t: "take (nat (min k (int (length xs)))) xs = take (nat k) xs" for k and xs :: "'a list"
    by (cases "k \<le> int (length xs)") (simp_all add: min_def)
  have "bifurcaciones_elegidas barajadas factor
      = take (nat (min (truncar ?p) (int (length barajadas)))) barajadas"
    by (simp add: bifurcaciones_elegidas_def Let_def)
  also have "\<dots> = take (nat (truncar ?p)) barajadas"
    by (rule t)
  also have "\<dots> = take (nat \<lfloor>?p\<rfloor>) barajadas"
    by (simp only: eq)
  finally show ?thesis .
qed

lemma factor_ramificacion_1: "factor_ramificacion 1 = 5404319552844595 / 2 ^ 54"
  unfolding factor_ramificacion_def doble_3_10 doble_4_10
  by (subst doble_eval [of _ "- 2"]) (simp_all add: powr_neg_numeral powr_minus redondeo_par_def)

lemma producto_3_en_1: "doble (doble 3 * factor_ramificacion 1) = 2026619832316723 / 2 ^ 51"
  unfolding factor_ramificacion_1 doble_entero_3
  by (subst doble_eval [of _ "- 1"]) (simp_all add: powr_neg_numeral powr_minus redondeo_par_def)

lemma factor_ramificacion_0_7: "factor_ramificacion (doble (7 / 10)) = 5044031582654955 / 2 ^ 54"
  unfolding factor_ramificacion_def doble_3_10 doble_7_10 doble_4_10
  by (subst doble_eval [of _ "- 2"]) (simp_all add: powr_neg_numeral powr_minus redondeo_par_def)

lemma producto_25_en_0_7:
  "doble (doble 25 * factor_ramificacion (doble (7 / 10))) = 7881299347898367 / 2 ^ 50"
  unfolding factor_ramificacion_0_7 doble_25
  by (subst doble_eval [of _ 2]) (simp_all add: powr_neg_numeral powr_minus redondeo_par_def)

lemma factor_ramificacion_0_6: "factor_ramificacion (doble (6 / 10)) = 1080863910568919 / 2 ^ 52"
  unfolding factor_ramificacion_def doble_3_10 doble_6_10 doble_4_10
  by (subst doble_eval [of _ "- 3"]) (simp_all add: powr_neg_numeral powr_minus redondeo_par_def)

lemma producto_25_en_0_6: "doble (doble 25 * factor_ramificacion (doble (6 / 10))) = 6"
  unfolding factor_ramificacion_0_6 doble_25
  by (subst doble_eval [of _ 2]) (simp_all add: powr_neg_numeral powr_minus redondeo_par_def)

text \<open>With 25 candidates the loop of the second stage runs 6 times at complexity 0.7
  and at complexity 0.6, where the products of the real numbers are 7 and 6.\<close>

lemma elegidas_25_en_0_7:
  assumes "length xs = 25"
  shows "length (bifurcaciones_elegidas xs (factor_ramificacion (doble (7 / 10)))) = 6"
  unfolding bifurcaciones_elegidas_take assms of_nat_numeral producto_25_en_0_7
  by (simp add: assms)

lemma elegidas_25_en_0_6:
  assumes "length xs = 25"
  shows "length (bifurcaciones_elegidas xs (factor_ramificacion (doble (6 / 10)))) = 6"
  unfolding bifurcaciones_elegidas_take assms of_nat_numeral producto_25_en_0_6
  by (simp add: assms)

subsection \<open>The search under the recursion limit\<close>

declare dfs_limitado.simps [simp del]

lemma dfs_limitado_acorde:
  "dfs_limitado F C m met c vis g n = Inr r \<Longrightarrow> dfs F C m met c vis g = r"
  "dfs_direcciones_limitado F C m met c ds vis g n = Inr r
     \<Longrightarrow> dfs_direcciones F C m met c ds vis g = r"
proof (induction F C m met c vis g n and F C m met c ds vis g n arbitrary: r and r
    rule: dfs_limitado_dfs_direcciones_limitado.induct)
  case (1 F C m met c visitado g)
  then show ?case by (simp add: dfs_limitado.simps)
next
  case (2 F C m met c visitado g marcos)
  show ?case
  proof (cases "c = met")
    case True
    then show ?thesis using "2.prems" by (simp add: dfs_limitado.simps dfs.simps)
  next
    case False
    obtain dirs g1
      where sh: "shuffle [(- 1 :: int, 0 :: int), (0, 1), (1, 0), (0, - 1)] g = (dirs, g1)"
      by (cases "shuffle [(- 1 :: int, 0 :: int), (0, 1), (1, 0), (0, - 1)] g")
    have "dfs_direcciones_limitado F C m met c dirs (insert c visitado) g1 marcos = Inr r"
      using "2.prems" False sh by (simp add: dfs_limitado.simps)
    then have "dfs_direcciones F C m met c dirs (insert c visitado) g1 = r"
      using "2.IH" [OF False sh [symmetric]] by blast
    then show ?thesis
      using False sh by (simp add: dfs.simps)
  qed
next
  case (3 F C m met c visitado g marcos)
  then show ?case by auto
next
  case (4 F C m met c d ds visitado g marcos)
  let ?n = "(fst c + fst d, snd c + snd d)"
  show ?case
  proof (cases "en_rango F C ?n \<and> m ?n = 0 \<and> ?n \<notin> visitado")
    case True
    show ?thesis
    proof (cases "dfs_limitado F C m met ?n visitado g marcos")
      case (Inl e)
      then show ?thesis using "4.prems" True by simp
    next
      case (Inr p)
      obtain enc v1 g1 where p: "p = (enc, v1, g1)" by (cases p)
      have d: "dfs F C m met ?n visitado g = (enc, v1, g1)"
        using "4.IH"(1) [OF True] Inr p by simp
      show ?thesis
      proof (cases enc)
        case True
        then show ?thesis
          using "4.prems" \<open>en_rango F C ?n \<and> m ?n = 0 \<and> ?n \<notin> visitado\<close> Inr p d by auto
      next
        case False
        have "dfs_direcciones_limitado F C m met c ds v1 g1 marcos = Inr r"
          using "4.prems" True Inr p False by simp
        then have "dfs_direcciones F C m met c ds v1 g1 = r"
          using "4.IH"(2) [OF True Inr p [symmetric] refl False] by blast
        then show ?thesis
          using True d False by simp
      qed
    qed
  next
    case False
    then have "dfs_direcciones_limitado F C m met c ds visitado g marcos = Inr r"
      using "4.prems" by auto
    then have "dfs_direcciones F C m met c ds visitado g = r"
      using "4.IH"(3) [OF False] by blast
    then show ?thesis
      using False by auto
  qed
qed

lemma dfs_limitado_distancia:
  "dfs_limitado F C m met c vis g n = Inr (True, vis', g')
     \<Longrightarrow> \<bar>fst c - fst met\<bar> + \<bar>snd c - snd met\<bar> < int n"
  "set ds \<subseteq> unitarias
     \<Longrightarrow> dfs_direcciones_limitado F C m met c ds vis g n = Inr (True, vis', g')
     \<Longrightarrow> \<bar>fst c - fst met\<bar> + \<bar>snd c - snd met\<bar> \<le> int n"
proof (induction F C m met c vis g n and F C m met c ds vis g n arbitrary: vis' g' and vis' g'
    rule: dfs_limitado_dfs_direcciones_limitado.induct)
  case (1 F C m met c visitado g)
  then show ?case by (simp add: dfs_limitado.simps)
next
  case (2 F C m met c visitado g marcos)
  show ?case
  proof (cases "c = met")
    case True
    then show ?thesis by simp
  next
    case False
    obtain dirs g1
      where sh: "shuffle [(- 1 :: int, 0 :: int), (0, 1), (1, 0), (0, - 1)] g = (dirs, g1)"
      by (cases "shuffle [(- 1 :: int, 0 :: int), (0, 1), (1, 0), (0, - 1)] g")
    have "set dirs \<subseteq> unitarias"
      using set_direcciones_dfs [of g] sh by simp
    moreover have "dfs_direcciones_limitado F C m met c dirs (insert c visitado) g1 marcos
        = Inr (True, vis', g')"
      using "2.prems" False sh by (simp add: dfs_limitado.simps)
    ultimately have "\<bar>fst c - fst met\<bar> + \<bar>snd c - snd met\<bar> \<le> int marcos"
      using "2.IH" [OF False sh [symmetric]] by blast
    then show ?thesis by simp
  qed
next
  case (3 F C m met c visitado g marcos)
  then show ?case by simp
next
  case (4 F C m met c d ds visitado g marcos)
  let ?n = "(fst c + fst d, snd c + snd d)"
  have ds: "set ds \<subseteq> unitarias" and d: "d \<in> unitarias"
    using "4.prems"(1) by auto
  show ?case
  proof (cases "en_rango F C ?n \<and> m ?n = 0 \<and> ?n \<notin> visitado")
    case True
    show ?thesis
    proof (cases "dfs_limitado F C m met ?n visitado g marcos")
      case (Inl e)
      then show ?thesis using "4.prems"(2) True by simp
    next
      case (Inr p)
      obtain enc v1 g1 where p: "p = (enc, v1, g1)" by (cases p)
      show ?thesis
      proof (cases enc)
        case True
        have "\<bar>fst ?n - fst met\<bar> + \<bar>snd ?n - snd met\<bar> < int marcos"
          using "4.IH"(1) [OF \<open>en_rango F C ?n \<and> m ?n = 0 \<and> ?n \<notin> visitado\<close>] Inr p True by simp
        moreover have "\<bar>fst d\<bar> + \<bar>snd d\<bar> = 1"
          using d by (auto simp: unitarias_def)
        ultimately show ?thesis by simp
      next
        case False
        have "dfs_direcciones_limitado F C m met c ds v1 g1 marcos = Inr (True, vis', g')"
          using "4.prems"(2) True Inr p False by simp
        then show ?thesis
          using "4.IH"(2) [OF True Inr p [symmetric] refl False ds] by blast
      qed
    qed
  next
    case False
    then have "dfs_direcciones_limitado F C m met c ds visitado g marcos = Inr (True, vis', g')"
      using "4.prems"(2) by auto
    then show ?thesis
      using "4.IH"(3) [OF False ds] by blast
  qed
qed

lemma dfs_limitado_desborda:
  assumes a: "alcanzable F C m ini met"
    and d: "int limite \<le> \<bar>fst ini - fst met\<bar> + \<bar>snd ini - snd met\<bar>"
  shows "dfs_limitado F C m met ini {} g limite = Inl RecursionError"
proof (cases "dfs_limitado F C m met ini {} g limite")
  case (Inl e)
  then show ?thesis by (cases e) simp
next
  case (Inr r)
  obtain enc v g1 where r: "r = (enc, v, g1)" by (cases r)
  have "dfs F C m met ini {} g = (enc, v, g1)"
    using dfs_limitado_acorde(1) [OF Inr] r by simp
  then have enc using dfs_decide a by blast
  then have "\<bar>fst ini - fst met\<bar> + \<bar>snd ini - snd met\<bar> < int limite"
    using dfs_limitado_distancia(1) [of F C m met ini "{}" g limite v g1] Inr r by simp
  then show ?thesis using d by simp
qed

lemma dfs_limitado_crece:
  "dfs_limitado F C m met c vis g n = Inr (enc, vis', g') \<Longrightarrow> vis \<subseteq> vis'"
  "dfs_direcciones_limitado F C m met c ds vis g n = Inr (enc, vis', g') \<Longrightarrow> vis \<subseteq> vis'"
proof (induction F C m met c vis g n and F C m met c ds vis g n
    arbitrary: enc vis' g' and enc vis' g'
    rule: dfs_limitado_dfs_direcciones_limitado.induct)
  case (1 F C m met c visitado g)
  then show ?case by (simp add: dfs_limitado.simps)
next
  case (2 F C m met c visitado g marcos)
  show ?case
  proof (cases "c = met")
    case True
    then show ?thesis using "2.prems" by (simp add: dfs_limitado.simps)
  next
    case False
    obtain dirs g1
      where sh: "shuffle [(- 1 :: int, 0 :: int), (0, 1), (1, 0), (0, - 1)] g = (dirs, g1)"
      by (cases "shuffle [(- 1 :: int, 0 :: int), (0, 1), (1, 0), (0, - 1)] g")
    have "dfs_direcciones_limitado F C m met c dirs (insert c visitado) g1 marcos
        = Inr (enc, vis', g')"
      using "2.prems" False sh by (simp add: dfs_limitado.simps)
    then have "insert c visitado \<subseteq> vis'"
      using "2.IH" [OF False sh [symmetric]] by blast
    then show ?thesis by simp
  qed
next
  case (3 F C m met c visitado g marcos)
  then show ?case by simp
next
  case (4 F C m met c d ds visitado g marcos)
  let ?n = "(fst c + fst d, snd c + snd d)"
  show ?case
  proof (cases "en_rango F C ?n \<and> m ?n = 0 \<and> ?n \<notin> visitado")
    case True
    show ?thesis
    proof (cases "dfs_limitado F C m met ?n visitado g marcos")
      case (Inl e)
      then show ?thesis using "4.prems" True by simp
    next
      case (Inr p)
      obtain e1 v1 g1 where p: "p = (e1, v1, g1)" by (cases p)
      have v1: "visitado \<subseteq> v1"
        using "4.IH"(1) [OF True] Inr p by simp
      show ?thesis
      proof (cases e1)
        case True
        then show ?thesis
          using "4.prems" \<open>en_rango F C ?n \<and> m ?n = 0 \<and> ?n \<notin> visitado\<close> Inr p v1 by simp
      next
        case False
        have "dfs_direcciones_limitado F C m met c ds v1 g1 marcos = Inr (enc, vis', g')"
          using "4.prems" True Inr p False by simp
        then have "v1 \<subseteq> vis'"
          using "4.IH"(2) [OF True Inr p [symmetric] refl False] by blast
        then show ?thesis using v1 by simp
      qed
    qed
  next
    case False
    then have "dfs_direcciones_limitado F C m met c ds visitado g marcos = Inr (enc, vis', g')"
      using "4.prems" by auto
    then show ?thesis
      using "4.IH"(3) [OF False] by blast
  qed
qed

lemma dfs_limitado_suficiente:
  "en_rango F C c \<Longrightarrow> c \<notin> vis \<Longrightarrow> card (rejilla F C - vis) \<le> n
     \<Longrightarrow> \<exists>r. dfs_limitado F C m met c vis g n = Inr r"
  "card (rejilla F C - vis) \<le> n
     \<Longrightarrow> \<exists>r. dfs_direcciones_limitado F C m met c ds vis g n = Inr r"
proof (induction F C m met c vis g n and F C m met c ds vis g n
    rule: dfs_limitado_dfs_direcciones_limitado.induct)
  case (1 F C m met c visitado g)
  have "card (rejilla F C - insert c visitado) < card (rejilla F C - visitado)"
    using "1.prems"(1,2) by (rule card_rejilla_insert)
  then show ?case using "1.prems"(3) by simp
next
  case (2 F C m met c visitado g marcos)
  show ?case
  proof (cases "c = met")
    case True
    then show ?thesis by (auto simp: dfs_limitado.simps)
  next
    case False
    obtain dirs g1
      where sh: "shuffle [(- 1 :: int, 0 :: int), (0, 1), (1, 0), (0, - 1)] g = (dirs, g1)"
      by (cases "shuffle [(- 1 :: int, 0 :: int), (0, 1), (1, 0), (0, - 1)] g")
    have "card (rejilla F C - insert c visitado) < card (rejilla F C - visitado)"
      using "2.prems"(1,2) by (rule card_rejilla_insert)
    then have "card (rejilla F C - insert c visitado) \<le> marcos"
      using "2.prems"(3) by simp
    then have "\<exists>r. dfs_direcciones_limitado F C m met c dirs (insert c visitado) g1 marcos = Inr r"
      by (rule "2.IH" [OF False sh [symmetric]])
    then show ?thesis
      using False sh by (simp add: dfs_limitado.simps)
  qed
next
  case (3 F C m met c visitado g marcos)
  then show ?case by auto
next
  case (4 F C m met c d ds visitado g marcos)
  let ?n = "(fst c + fst d, snd c + snd d)"
  show ?case
  proof (cases "en_rango F C ?n \<and> m ?n = 0 \<and> ?n \<notin> visitado")
    case True
    obtain p where Inr: "dfs_limitado F C m met ?n visitado g marcos = Inr p"
      using "4.IH"(1) [OF True _ _ "4.prems"] True by blast
    obtain e1 v1 g1 where p: "p = (e1, v1, g1)" by (cases p)
    have v1: "visitado \<subseteq> v1"
      using dfs_limitado_crece(1) Inr p by blast
    show ?thesis
    proof (cases e1)
      case True
      then show ?thesis
        using \<open>en_rango F C ?n \<and> m ?n = 0 \<and> ?n \<notin> visitado\<close> Inr p by auto
    next
      case False
      have "card (rejilla F C - v1) \<le> marcos"
        using card_rejilla_mono [OF v1, of F C] "4.prems" by simp
      then have "\<exists>r. dfs_direcciones_limitado F C m met c ds v1 g1 marcos = Inr r"
        by (rule "4.IH"(2) [OF True Inr p [symmetric] refl False])
      then show ?thesis
        using True Inr p False by simp
    qed
  next
    case False
    have "\<exists>r. dfs_direcciones_limitado F C m met c ds visitado g marcos = Inr r"
      using "4.prems" by (rule "4.IH"(3) [OF False])
    then show ?thesis
      using False by auto
  qed
qed

lemma card_rejilla: "0 \<le> F \<Longrightarrow> 0 \<le> C \<Longrightarrow> card (rejilla F C) = nat (F * C)"
  by (simp add: rejilla_def nat_mult_distrib)

lemma garantizar_solucion_limitado_suficiente:
  assumes "en_rango F C ini" "F * C \<le> int limite"
  shows "garantizar_solucion_limitado F C m ini met g limite
           = Inr (garantizar_solucion F C m ini met g)"
proof -
  have F: "0 \<le> F" "0 \<le> C" using assms(1) by (auto simp: en_rango_def)
  have "card (rejilla F C - {}) \<le> limite"
    using card_rejilla [OF F] assms(2) by simp
  then obtain r where r: "dfs_limitado F C m met ini {} g limite = Inr r"
    using dfs_limitado_suficiente(1) [OF assms(1), of "{}" limite m met g] by blast
  have "dfs F C m met ini {} g = r"
    using r by (rule dfs_limitado_acorde(1))
  then show ?thesis
    using r by (simp add: garantizar_solucion_limitado_def garantizar_solucion_def split: prod.splits)
qed

section \<open>C1: the start reaches the goal\<close>

text \<open>
  C1: for every generated maze (any \<open>rows \<ge> 3\<close>, \<open>cols \<ge> 3\<close>, any complexity and
  density, any random stream) generation succeeds, start and goal are path cells, and
  the goal is reachable from the start by steps between 4-adjacent path cells inside
  the grid.
\<close>

theorem C1_inicio_y_meta_conectados:
  assumes "3 \<le> F" "3 \<le> C"
  shows "\<exists>L. nuevo_laberinto F C complejidad densidad g = Inr L
             \<and> filas L = F \<and> columnas L = C
             \<and> matriz L (inicio L) = 0 \<and> matriz L (meta L) = 0
             \<and> alcanzable (filas L) (columnas L) (matriz L) (inicio L) (meta L)"
proof -
  obtain L m ini met g' where L: "generar F C complejidad densidad g = Inr L"
    "L = \<lparr>filas = F, columnas = C, matriz = garantizar_solucion F C m ini met g',
           inicio = ini, meta = met\<rparr>"
    "listo F C (matriz L) (inicio L) (meta L)" "conexo F C (matriz L) (inicio L)"
    using assms by (rule generar_listo)
  have z: "matriz L (inicio L) = 0" "matriz L (meta L) = 0"
    using L(3) unfolding listo_def by blast+
  have "alcanzable F C (matriz L) (inicio L) (meta L)"
    using L(4) z(2) by (rule conexoD)
  moreover have "filas L = F" "columnas L = C"
    using L(2) by simp_all
  ultimately show ?thesis
    using L(1) z assms by (simp add: nuevo_laberinto_generar)
qed

theorem C1_inicio_y_meta_conectados_testigo:
  "(3 :: int) \<le> 5 \<and> (3 :: int) \<le> 7
   \<and> (\<exists>L. nuevo_laberinto 5 7 (1 / 2) (1 / 2) (sconst 0) = Inr L
             \<and> filas L = 5 \<and> columnas L = 7
             \<and> matriz L (inicio L) = 0 \<and> matriz L (meta L) = 0
             \<and> alcanzable (filas L) (columnas L) (matriz L) (inicio L) (meta L))"
proof -
  have h1: "(3 :: int) \<le> 5" and h2: "(3 :: int) \<le> 7" by simp_all
  show ?thesis
    by (intro conjI) (rule h1, rule h2, rule C1_inicio_y_meta_conectados [OF h1 h2])
qed

section \<open>C2: start and goal on the smallest grid\<close>

text \<open>
  C2 states that start and goal are distinct cells for every generated maze, the
  3 x 3 grid included. On the 3 x 3 grid the only interior cell is \<open>(1, 1)\<close>: the
  carver opens it, \<^verbatim>\<open>_establecer_inicio_meta\<close> takes it as the start, finds no other
  path cell, and its last resort (\<^verbatim>\<open>nueva_meta = (filas - 2, columnas - 2)\<close>, "create
  another one") is \<open>(1, 1)\<close> again. For every complexity, density and random stream
  the constructor returns the maze below, whose start equals its goal.
\<close>

theorem C2_inicio_igual_meta_3x3:
  "nuevo_laberinto 3 3 complejidad densidad g
     = Inr \<lparr>filas = 3, columnas = 3, matriz = (\<lambda>c. 1)((1, 1) := 0),
            inicio = (1, 1), meta = (1, 1)\<rparr>
   \<and> inicio \<lparr>filas = 3, columnas = 3, matriz = (\<lambda>c. 1)((1, 1) := 0),
            inicio = (1, 1), meta = (1, 1)\<rparr>
     = meta \<lparr>filas = 3, columnas = 3, matriz = (\<lambda>c. 1)((1, 1) := 0),
            inicio = (1, 1), meta = (1, 1)\<rparr>"
  by (intro conjI) (rule nuevo_laberinto_3_3, simp)

section \<open>C3: the only failure is the dimension error\<close>

text \<open>
  C3 (as stated): with \<open>rows \<ge> 3\<close> and \<open>cols \<ge> 3\<close> the constructor does not fail, the
  dimension error being the only failure a caller sees. The search of
  \<^verbatim>\<open>_garantizar_solucion\<close> is recursive, one frame of the interpreter for every cell
  of the branch it follows. On the 10 x 2010 grid the start is \<open>(1, 1)\<close> and the goal
  lies in a row \<open>\<ge> 5\<close> and a column \<open>\<ge> 1005\<close>, at Manhattan distance at least 1008, so
  a search that finds it nests at least 1009 calls: when at most 1008 nested calls
  are allowed, in particular under the default recursion limit of 1000, the search
  raises \<^verbatim>\<open>RecursionError\<close>, for all values of the parameters and every stream.
\<close>

theorem C3_desbordamiento_10_2010:
  assumes "limite \<le> 1008"
  shows "\<exists>m ini met g'.
           antes_de_garantizar 10 2010 complejidad densidad g = Inr (m, ini, met, g')
         \<and> garantizar_solucion_limitado 10 2010 m ini met g' limite = Inl RecursionError"
proof -
  obtain L m ini met g' where
    ag: "antes_de_garantizar 10 2010 complejidad densidad g = Inr (m, ini, met, g')"
    by (rule generar_listo [of 10 2010 complejidad densidad g]) simp_all
  from ag obtain m3 where ab: "abierto 10 2010 m3"
    and e: "establecer_inicio_meta 10 2010 m3 = (m, ini, met)"
    by (rule antes_de_garantizar_Inr)
  have q: "ini = (1, 1) \<and> 10 div 2 \<le> fst met \<and> 2010 div 2 \<le> snd met"
    using establecer_cuadrantes [OF _ _ ab e] by simp
  have al: "alcanzable 10 2010 m ini met"
    using establecer_alcanzable [OF _ _ ab e] by simp
  have "int limite \<le> \<bar>fst ini - fst met\<bar> + \<bar>snd ini - snd met\<bar>"
    using q assms by simp
  then have "dfs_limitado 10 2010 m met ini {} g' limite = Inl RecursionError"
    using al by (rule dfs_limitado_desborda [rotated])
  then show ?thesis
    using ag by (simp add: garantizar_solucion_limitado_def)
qed

theorem C3_desbordamiento_10_2010_testigo:
  "(1000 :: nat) \<le> 1008
   \<and> (\<exists>m ini met g'.
           antes_de_garantizar 10 2010 (1 / 2) (1 / 2) (sconst 0) = Inr (m, ini, met, g')
         \<and> garantizar_solucion_limitado 10 2010 m ini met g' 1000 = Inl RecursionError)"
proof -
  have h: "(1000 :: nat) \<le> 1008" by simp
  show ?thesis
    by (intro conjI) (rule h, rule C3_desbordamiento_10_2010 [OF h])
qed

section \<open>C6: the second stage leaves the tree as it is\<close>

text \<open>
  C6: the dead ends of the second stage never reconnect to the carved tree, and the
  path cells form a tree when the stage finishes. The stage carves only into cells
  that are not in \<^verbatim>\<open>visitadas\<close>; when it runs, the carver has visited every odd cell
  inside the border, so every recorded neighbour is visited and the stage carves
  nothing at all: it returns the matrix and the visited set of the carver. The path
  cells form a tree: they can be built from one cell by adding leaves (\<open>arbol\<close>),
  they are finite, connected, and have one edge less than cells.
\<close>

theorem C6_sigue_siendo_arbol:
  assumes "3 \<le> F" "3 \<le> C"
  shows "\<exists>m vis bifs g1.
           tallar F C g = Inr (m, vis, bifs, g1)
           \<and> agregar_complejidad F C m vis bifs (factor_ramificacion complejidad) g1
               = (m, vis, snd (shuffle bifs g1))
           \<and> arbol {c. m c = 0} \<and> finite {c. m c = 0}
           \<and> card (aristas {c. m c = 0}) + 1 = card {c. m c = 0}
           \<and> (\<forall>a b. m a = 0 \<and> m b = 0 \<longrightarrow> alcanzable F C m a b)"
proof -
  obtain r where r: "tallar F C g = Inr r"
    using tallar_Inl [of F C g] assms by (cases "tallar F C g") auto
  obtain m vis bifs g1 where p: "r = (m, vis, bifs, g1)"
    by (cases r)
  have pt: "post_tallar F C m vis bifs"
    using r [unfolded p] by (rule tallar_Inr)
  have a: "arbol {c. m c = 0}" and vis: "vis = impares F C" and t: "tallado vis m"
    using pt unfolding post_tallar_def by blast+
  obtain orig where o: "orig \<in> vis" "\<And>c. m c = 0 \<Longrightarrow> alcanzable F C m orig c"
    using pt unfolding post_tallar_def by blast
  have oz: "m orig = 0" using t o(1) by (rule tallado_vis)
  have orn: "en_rango F C orig"
    using o(1) vis by (blast intro: interior_en_rango impares_interior)
  have todos: "alcanzable F C m a b" if "m a = 0 \<and> m b = 0" for a b
  proof -
    have "alcanzable F C m orig a" "alcanzable F C m orig b"
      using that o(2) by simp_all
    then show ?thesis
      using oz orn by (blast intro: alcanzable_trans alcanzable_sym)
  qed
  have "agregar_complejidad F C m vis bifs (factor_ramificacion complejidad) g1
               = (m, vis, snd (shuffle bifs g1))"
    using pt by (rule agregar_complejidad_nada)
  then show ?thesis
    using r p a arbol_aristas [OF a] todos by (simp del: split_paired_All)
qed

theorem C6_sigue_siendo_arbol_testigo:
  "(3 :: int) \<le> 5 \<and> (3 :: int) \<le> 7
   \<and> (\<exists>m vis bifs g1.
           tallar 5 7 (sconst 0) = Inr (m, vis, bifs, g1)
           \<and> agregar_complejidad 5 7 m vis bifs (factor_ramificacion 1) g1
               = (m, vis, snd (shuffle bifs g1))
           \<and> arbol {c. m c = 0} \<and> finite {c. m c = 0}
           \<and> card (aristas {c. m c = 0}) + 1 = card {c. m c = 0}
           \<and> (\<forall>a b. m a = 0 \<and> m b = 0 \<longrightarrow> alcanzable 5 7 m a b))"
proof -
  have h1: "(3 :: int) \<le> 5" and h2: "(3 :: int) \<le> 7" by simp_all
  show ?thesis
    by (intro conjI) (rule h1, rule h2, rule C6_sigue_siendo_arbol [OF h1 h2])
qed

section \<open>C7: the quadrants of start and goal\<close>

text \<open>
  C7: for every generated maze with \<open>rows \<ge> 10\<close> and \<open>cols \<ge> 10\<close> the start lies in
  the top half or the left half and the goal in the bottom half or the right half,
  the halves being split at \<^verbatim>\<open>filas // 2\<close> and \<^verbatim>\<open>columnas // 2\<close> as in the source
  (\<^verbatim>\<open>mitad_fila\<close>, \<^verbatim>\<open>mitad_columna\<close>). More precisely the start is the cell
  \<open>(1, 1)\<close> and the goal lies in the bottom half and in the right half.
\<close>

theorem C7_cuadrantes:
  assumes "10 \<le> F" "10 \<le> C"
  shows "\<exists>L. nuevo_laberinto F C complejidad densidad g = Inr L
             \<and> (fst (inicio L) < F div 2 \<or> snd (inicio L) < C div 2)
             \<and> (fst (meta L) \<ge> F div 2 \<or> snd (meta L) \<ge> C div 2)
             \<and> inicio L = (1, 1) \<and> fst (meta L) \<ge> F div 2 \<and> snd (meta L) \<ge> C div 2"
proof -
  have F3: "3 \<le> F" and C3: "3 \<le> C" using assms by simp_all
  obtain L m ini met g' where L: "generar F C complejidad densidad g = Inr L"
    "antes_de_garantizar F C complejidad densidad g = Inr (m, ini, met, g')"
    "L = \<lparr>filas = F, columnas = C, matriz = garantizar_solucion F C m ini met g',
           inicio = ini, meta = met\<rparr>"
    using F3 C3 by (rule generar_listo)
  have "ini = (1, 1) \<and> F div 2 \<le> fst met \<and> C div 2 \<le> snd met"
    using L(2)
  proof (rule antes_de_garantizar_Inr)
    fix m3 assume "abierto F C m3" "establecer_inicio_meta F C m3 = (m, ini, met)"
    with assms show ?thesis by (rule establecer_cuadrantes)
  qed
  moreover have "(1 :: int) < F div 2" using assms by simp
  ultimately show ?thesis
    using L(1,3) F3 C3 by (simp add: nuevo_laberinto_generar)
qed

theorem C7_cuadrantes_testigo:
  "(10 :: int) \<le> 10 \<and> (10 :: int) \<le> 11
   \<and> (\<exists>L. nuevo_laberinto 10 11 (1 / 2) (1 / 2) (sconst 0) = Inr L
             \<and> (fst (inicio L) < 10 div 2 \<or> snd (inicio L) < 11 div 2)
             \<and> (fst (meta L) \<ge> 10 div 2 \<or> snd (meta L) \<ge> 11 div 2)
             \<and> inicio L = (1, 1) \<and> fst (meta L) \<ge> 10 div 2 \<and> snd (meta L) \<ge> 11 div 2)"
proof -
  have h1: "(10 :: int) \<le> 10" and h2: "(10 :: int) \<le> 11" by simp_all
  show ?thesis
    by (intro conjI) (rule h1, rule h2, rule C7_cuadrantes [OF h1 h2])
qed

section \<open>C8: all path cells are connected\<close>

text \<open>
  C8 (as stated): all path cells are connected, and consequently the corridor of
  \<^verbatim>\<open>_crear_camino\<close> is never carved. The second part fails on the 4 x 4 grid: the
  carver opens \<open>(1, 1)\<close> only, the goal is forced to \<open>(2, 2)\<close>, which is not adjacent,
  the search of \<^verbatim>\<open>_garantizar_solucion\<close> fails and the corridor opens \<open>(1, 2)\<close>.
\<close>

theorem C8_pasillo_4x4_contraejemplo:
  "antes_de_garantizar 4 4 (1 / 2) (1 / 2) (sconst 0)
     = Inr ((\<lambda>c. 1)((1, 1) := 0, (2, 2) := 0), (1, 1), (2, 2), sconst 0)
   \<and> dfs 4 4 ((\<lambda>c. 1)((1, 1) := 0, (2, 2) := 0)) (2, 2) (1, 1) {} (sconst 0)
       = (False, {(1, 1)}, sconst 0)
   \<and> nuevo_laberinto 4 4 (1 / 2) (1 / 2) (sconst 0)
       = Inr \<lparr>filas = 4, columnas = 4,
              matriz = (\<lambda>c. 1)((1, 1) := 0, (2, 2) := 0, (1, 2) := 0),
              inicio = (1, 1), meta = (2, 2)\<rparr>"
  by (intro conjI)
    (rule antes_de_garantizar_4_4_sconst, rule dfs_4_4_sconst, rule nuevo_laberinto_4_4_sconst)

text \<open>
  C8 (amended): in every generated maze (\<open>rows \<ge> 3\<close>, \<open>cols \<ge> 3\<close>, any parameters,
  any random stream) any two path cells are joined by a chain of 4-adjacent path
  cells; the search of \<^verbatim>\<open>_garantizar_solucion\<close> finds the goal, so that the corridor
  of \<^verbatim>\<open>_crear_camino\<close> is not carved, exactly when the grid is not 4 x 4.
\<close>

theorem C8_caminos_conexos:
  assumes "3 \<le> F" "3 \<le> C"
  shows "\<exists>L m ini met g'.
           nuevo_laberinto F C complejidad densidad g = Inr L
           \<and> (\<forall>a b. matriz L a = 0 \<and> matriz L b = 0 \<longrightarrow> alcanzable F C (matriz L) a b)
           \<and> antes_de_garantizar F C complejidad densidad g = Inr (m, ini, met, g')
           \<and> (fst (dfs F C m met ini {} g') \<longleftrightarrow> \<not> (F = 4 \<and> C = 4))"
proof -
  obtain L m ini met g' where L: "generar F C complejidad densidad g = Inr L"
    "antes_de_garantizar F C complejidad densidad g = Inr (m, ini, met, g')"
    "L = \<lparr>filas = F, columnas = C, matriz = garantizar_solucion F C m ini met g',
           inicio = ini, meta = met\<rparr>"
    "listo F C m ini met" "listo F C (matriz L) (inicio L) (meta L)"
    "conexo F C (matriz L) (inicio L)"
    using assms by (rule generar_listo)
  have ini: "matriz L (inicio L) = 0" "en_rango F C (inicio L)"
    using L(5) unfolding listo_def by (blast intro: interior_en_rango)+
  have todos: "alcanzable F C (matriz L) a b" if "matriz L a = 0 \<and> matriz L b = 0" for a b
  proof -
    have "alcanzable F C (matriz L) (inicio L) a" "alcanzable F C (matriz L) (inicio L) b"
      using that L(6) by (simp_all add: conexoD)
    then show ?thesis
      using ini by (blast intro: alcanzable_trans alcanzable_sym)
  qed
  have "alcanzable F C m ini met \<longleftrightarrow> \<not> (F = 4 \<and> C = 4)"
  proof (cases "F = 4 \<and> C = 4")
    case True
    then have "antes_de_garantizar 4 4 complejidad densidad g = Inr (m, ini, met, g')"
      using L(2) by simp
    then have "\<not> alcanzable 4 4 m ini met"
      using antes_de_garantizar_4_4 by blast
    then show ?thesis using True by simp
  next
    case False
    have "alcanzable F C m ini met"
      using L(2)
    proof (rule antes_de_garantizar_Inr)
      fix m3 assume "abierto F C m3" "establecer_inicio_meta F C m3 = (m, ini, met)"
      with assms show ?thesis
        using False by (rule establecer_alcanzable)
    qed
    then show ?thesis using False by simp
  qed
  moreover have "fst (dfs F C m met ini {} g') \<longleftrightarrow> alcanzable F C m ini met"
    using dfs_decide [of F C m met ini g'] by (cases "dfs F C m met ini {} g'") simp
  ultimately show ?thesis
    using L(1,2) todos assms by (simp add: nuevo_laberinto_generar del: split_paired_All)
qed

theorem C8_caminos_conexos_testigo:
  "(3 :: int) \<le> 5 \<and> (3 :: int) \<le> 7
   \<and> (\<exists>L m ini met g'.
           nuevo_laberinto 5 7 (1 / 2) (1 / 2) (sconst 0) = Inr L
           \<and> (\<forall>a b. matriz L a = 0 \<and> matriz L b = 0 \<longrightarrow> alcanzable 5 7 (matriz L) a b)
           \<and> antes_de_garantizar 5 7 (1 / 2) (1 / 2) (sconst 0) = Inr (m, ini, met, g')
           \<and> (fst (dfs 5 7 m met ini {} g') \<longleftrightarrow> \<not> ((5 :: int) = 4 \<and> (7 :: int) = 4)))"
proof -
  have h1: "(3 :: int) \<le> 5" and h2: "(3 :: int) \<le> 7" by simp_all
  show ?thesis
    by (intro conjI) (rule h1, rule h2, rule C8_caminos_conexos [OF h1 h2])
qed

section \<open>C9: the outer border stays wall\<close>

text \<open>
  C9: in every generated maze every path cell lies in rows \<open>1 .. rows - 2\<close> and
  columns \<open>1 .. cols - 2\<close>, so every cell of row 0, row \<open>rows - 1\<close>, column 0 and
  column \<open>cols - 1\<close> is a wall: no stage writes to a border cell (nor outside the
  array).
\<close>

theorem C9_borde_es_pared:
  assumes "3 \<le> F" "3 \<le> C"
  shows "\<exists>L. nuevo_laberinto F C complejidad densidad g = Inr L
             \<and> filas L = F \<and> columnas L = C
             \<and> (\<forall>i j. matriz L (i, j) = 0 \<longrightarrow> 1 \<le> i \<and> i \<le> F - 2 \<and> 1 \<le> j \<and> j \<le> C - 2)
             \<and> (\<forall>i j. i = 0 \<or> i = F - 1 \<or> j = 0 \<or> j = C - 1 \<longrightarrow> es_pared L i j)"
proof -
  obtain L m ini met g' where L: "generar F C complejidad densidad g = Inr L"
    "L = \<lparr>filas = F, columnas = C, matriz = garantizar_solucion F C m ini met g',
           inicio = ini, meta = met\<rparr>"
    "listo F C (matriz L) (inicio L) (meta L)"
    using assms by (rule generar_listo)
  have FC: "filas L = F" "columnas L = C"
    using L(2) by simp_all
  have int: "\<And>c. matriz L c = 0 \<Longrightarrow> c \<in> interior F C" and le: "\<And>c. matriz L c \<le> 1"
    using L(3) unfolding listo_def by blast+
  have 1: "1 \<le> i \<and> i \<le> F - 2 \<and> 1 \<le> j \<and> j \<le> C - 2" if "matriz L (i, j) = 0" for i j
    using int [OF that] by (simp add: interior_def)
  have 2: "es_pared L i j" if "i = 0 \<or> i = F - 1 \<or> j = 0 \<or> j = C - 1" for i j
  proof -
    have "matriz L (i, j) \<noteq> 0"
    proof
      assume "matriz L (i, j) = 0"
      then have "1 \<le> i \<and> i \<le> F - 2 \<and> 1 \<le> j \<and> j \<le> C - 2" by (rule 1)
      then show False using that by auto
    qed
    then have "matriz L (i, j) = 1"
      using le [of "(i, j)"] by simp
    then show ?thesis by (simp add: es_pared_def)
  qed
  show ?thesis
    using L(1) FC 1 2 assms by (simp add: nuevo_laberinto_generar)
qed

theorem C9_borde_es_pared_testigo:
  "(3 :: int) \<le> 5 \<and> (3 :: int) \<le> 7
   \<and> (\<exists>L. nuevo_laberinto 5 7 (1 / 2) (1 / 2) (sconst 0) = Inr L
             \<and> filas L = 5 \<and> columnas L = 7
             \<and> (\<forall>i j. matriz L (i, j) = 0 \<longrightarrow> 1 \<le> i \<and> i \<le> 5 - 2 \<and> 1 \<le> j \<and> j \<le> 7 - 2)
             \<and> (\<forall>i j. i = 0 \<or> i = 5 - 1 \<or> j = 0 \<or> j = 7 - 1 \<longrightarrow> es_pared L i j))"
proof -
  have h1: "(3 :: int) \<le> 5" and h2: "(3 :: int) \<le> 7" by simp_all
  show ?thesis
    by (intro conjI) (rule h1, rule h2, rule C9_borde_es_pared [OF h1 h2])
qed

section \<open>C10: start and goal are strictly interior\<close>

text \<open>
  C10: after generation, \<open>1 \<le> row \<le> rows - 2\<close> and \<open>1 \<le> col \<le> cols - 2\<close> hold
  for the start and for the goal.
\<close>

theorem C10_extremos_interiores:
  assumes "3 \<le> F" "3 \<le> C"
  shows "\<exists>L. nuevo_laberinto F C complejidad densidad g = Inr L
             \<and> 1 \<le> fst (inicio L) \<and> fst (inicio L) \<le> F - 2
             \<and> 1 \<le> snd (inicio L) \<and> snd (inicio L) \<le> C - 2
             \<and> 1 \<le> fst (meta L) \<and> fst (meta L) \<le> F - 2
             \<and> 1 \<le> snd (meta L) \<and> snd (meta L) \<le> C - 2"
proof -
  obtain L m ini met g' where L: "generar F C complejidad densidad g = Inr L"
    "listo F C (matriz L) (inicio L) (meta L)"
    using assms by (rule generar_listo)
  have "inicio L \<in> interior F C" "meta L \<in> interior F C"
    using L(2) unfolding listo_def by blast+
  then have "1 \<le> fst (inicio L) \<and> fst (inicio L) \<le> F - 2
             \<and> 1 \<le> snd (inicio L) \<and> snd (inicio L) \<le> C - 2
             \<and> 1 \<le> fst (meta L) \<and> fst (meta L) \<le> F - 2
             \<and> 1 \<le> snd (meta L) \<and> snd (meta L) \<le> C - 2"
    by (cases "inicio L", cases "meta L") (simp add: interior_def)
  then show ?thesis
    using L(1) assms by (simp add: nuevo_laberinto_generar)
qed

theorem C10_extremos_interiores_testigo:
  "(3 :: int) \<le> 3 \<and> (3 :: int) \<le> 4
   \<and> (\<exists>L. nuevo_laberinto 3 4 (1 / 2) (1 / 2) (sconst 0) = Inr L
             \<and> 1 \<le> fst (inicio L) \<and> fst (inicio L) \<le> 3 - 2
             \<and> 1 \<le> snd (inicio L) \<and> snd (inicio L) \<le> 4 - 2
             \<and> 1 \<le> fst (meta L) \<and> fst (meta L) \<le> 3 - 2
             \<and> 1 \<le> snd (meta L) \<and> snd (meta L) \<le> 4 - 2)"
proof -
  have h1: "(3 :: int) \<le> 3" and h2: "(3 :: int) \<le> 4" by simp_all
  show ?thesis
    by (intro conjI) (rule h1, rule h2, rule C10_extremos_interiores [OF h1 h2])
qed

section \<open>C4: more density, no fewer path cells\<close>

text \<open>
  C4: for fixed rows, columns, complexity and random stream, and densities
  \<open>d1 \<le> d2\<close>, the maze generated with \<open>d2\<close> has at least as many path cells as
  the maze generated with \<open>d1\<close>. The two runs agree up to the cycle stage; there
  \<^verbatim>\<open>random.random()\<close> is drawn exactly at the walls that qualify, which does not
  depend on the walls opened before, so both runs compare the same draws with
  \<open>d1 * 0.15\<close> and \<open>d2 * 0.15\<close>; and the later stages open nothing where the
  cycle stage can act (rows, cols \<ge> 5).
\<close>

theorem C4_densidad_monotona:
  assumes d: "d1 \<le> d2" and F: "3 \<le> F" and C: "3 \<le> C"
  shows "\<exists>L1 L2. nuevo_laberinto F C complejidad d1 g = Inr L1
                 \<and> nuevo_laberinto F C complejidad d2 g = Inr L2
                 \<and> contar_caminos L1 \<le> contar_caminos L2"
proof -
  obtain La ma ia ta ga where La: "generar F C complejidad d1 g = Inr La"
    "antes_de_garantizar F C complejidad d1 g = Inr (ma, ia, ta, ga)"
    "La = \<lparr>filas = F, columnas = C, matriz = garantizar_solucion F C ma ia ta ga,
           inicio = ia, meta = ta\<rparr>"
    using F C by (rule generar_listo)
  obtain Lb mb ib tb gb where Lb: "generar F C complejidad d2 g = Inr Lb"
    "antes_de_garantizar F C complejidad d2 g = Inr (mb, ib, tb, gb)"
    "Lb = \<lparr>filas = F, columnas = C, matriz = garantizar_solucion F C mb ib tb gb,
           inicio = ib, meta = tb\<rparr>"
    using F C by (rule generar_listo)
  have "contar_caminos La \<le> contar_caminos Lb"
    using La(2)
  proof (rule antes_de_garantizar_Inr)
    fix m1 vis bifs g1 m3a
    assume ta: "tallar F C g = Inr (m1, vis, bifs, g1)"
      and ca: "ciclos_bucle (d1 * (15 / 100)) (celdas_ciclos F C) m1 (snd (shuffle bifs g1)) = (m3a, ga)"
      and aa: "abierto F C m3a" and ea: "establecer_inicio_meta F C m3a = (ma, ia, ta)"
    show ?thesis
      using Lb(2)
    proof (rule antes_de_garantizar_Inr)
      fix m1' vis' bifs' g1' m3b
      assume tb: "tallar F C g = Inr (m1', vis', bifs', g1')"
        and cb': "ciclos_bucle (d2 * (15 / 100)) (celdas_ciclos F C) m1' (snd (shuffle bifs' g1')) = (m3b, gb)"
        and ab: "abierto F C m3b" and eb: "establecer_inicio_meta F C m3b = (mb, ib, tb)"
      have same: "m1' = m1" "bifs' = bifs" "g1' = g1"
        using ta tb by simp_all
      note cb = cb' [unfolded same]
      have p: "d1 * (15 / 100) \<le> d2 * (15 / 100)" using d by simp
      have "ga = gb \<and> (\<forall>c. m3a c = 0 \<longrightarrow> m3b c = 0)"
        using p celdas_ciclos_distintas
      proof (rule ciclos_bucle_acoplado [OF _ _ _ _ ca cb])
        show "even (fst c) \<and> even (snd c)" if "c \<in> set (celdas_ciclos F C)" for c
          using that by (rule celdas_ciclos_pares)
        show "even (fst c) \<and> even (snd c) \<and> c \<notin> set (celdas_ciclos F C) \<and> m1 c = 0"
          if "m1 c \<noteq> m1 c" for c
          using that by simp
      qed
      then have acop: "ga = gb" "\<And>c. m3a c = 0 \<Longrightarrow> m3b c = 0"
        by blast+
      show ?thesis
      proof (cases "celdas_ciclos F C = []")
        case True
        have "m3a = m3b" using ca cb True by simp
        then have "La = Lb"
          using ea eb acop(1) La(3) Lb(3) by simp
        then show ?thesis by simp
      next
        case False
        then have 5: "5 \<le> F" "5 \<le> C"
          using celdas_ciclos_no_vacio by blast+
        have "matriz La = m3a" "matriz Lb = m3b"
          using sin_reparar [OF 5 aa ea] sin_reparar [OF 5 ab eb] La(3) Lb(3) by simp_all
        moreover have "filas La = filas Lb" "columnas La = columnas Lb"
          using La(3) Lb(3) by simp_all
        ultimately show ?thesis
          unfolding contar_caminos_def using acop(2) by (simp add: length_filter_mono)
      qed
    qed
  qed
  then show ?thesis
    using La(1) Lb(1) F C by (simp add: nuevo_laberinto_generar)
qed

theorem C4_densidad_monotona_testigo:
  "(0 :: real) \<le> 1 \<and> (3 :: int) \<le> 5 \<and> (3 :: int) \<le> 7
   \<and> (\<exists>L1 L2. nuevo_laberinto 5 7 (1 / 2) 0 (sconst 0) = Inr L1
                 \<and> nuevo_laberinto 5 7 (1 / 2) 1 (sconst 0) = Inr L2
                 \<and> contar_caminos L1 \<le> contar_caminos L2)"
proof -
  have h0: "(0 :: real) \<le> 1" and h1: "(3 :: int) \<le> 5" and h2: "(3 :: int) \<le> 7" by simp_all
  show ?thesis
    by (intro conjI) (rule h0, rule h1, rule h2, rule C4_densidad_monotona [OF h0 h1 h2])
qed

section \<open>C5: how many branch candidates the second stage processes\<close>

lemma shuffle_fst_length [simp]: "length (fst (shuffle xs g)) = length xs"
  by (rule length_shuffle)

text \<open>
  C5 (as stated): the second stage processes exactly
  \<open>round(len(candidates) * branch_factor)\<close> candidates of the shuffled list.
  The source computes \<^verbatim>\<open>int(len(bifurcaciones) * factor_ramificacion)\<close>, which
  truncates. On the 5 x 7 grid with the constant stream the carver records three
  candidates; with complexity 1 the factor is the double 0.3 and the product the
  double 0.8999999999999999: rounding gives 1, the source processes none.
\<close>

theorem C5_redondeo_contraejemplo:
  "tallar 5 7 (sconst 0) =
     Inr ((\<lambda>c. 1)((1, 1) := 0, (1, 2) := 0, (1, 3) := 0, (2, 3) := 0, (3, 3) := 0,
            (3, 2) := 0, (3, 1) := 0, (3, 4) := 0, (3, 5) := 0, (2, 5) := 0, (1, 5) := 0),
          {(1, 5), (3, 5), (3, 1), (3, 3), (1, 3), (1, 1)},
          [(1, 1, [(3, 1, 1, 0)]), (1, 3, [(1, 5, 0, 1)]), (3, 3, [(3, 5, 0, 1)])],
          sconst 0)
   \<and> bifurcaciones_elegidas
         (fst (shuffle [(1, 1, [(3, 1, 1, 0)]), (1, 3, [(1, 5, 0, 1)]), (3, 3, [(3, 5, 0, 1)])]
                 (sconst 0)))
         (factor_ramificacion 1) = []
   \<and> round (doble (doble 3 * factor_ramificacion 1)) = 1"
proof (intro conjI)
  show "tallar 5 7 (sconst 0) =
     Inr ((\<lambda>c. 1)((1, 1) := 0, (1, 2) := 0, (1, 3) := 0, (2, 3) := 0, (3, 3) := 0,
            (3, 2) := 0, (3, 1) := 0, (3, 4) := 0, (3, 5) := 0, (2, 5) := 0, (1, 5) := 0),
          {(1, 5), (3, 5), (3, 1), (3, 3), (1, 3), (1, 1)},
          [(1, 1, [(3, 1, 1, 0)]), (1, 3, [(1, 5, 0, 1)]), (3, 3, [(3, 5, 0, 1)])],
          sconst 0)"
    by (rule tallar_5_7)
  show "bifurcaciones_elegidas
         (fst (shuffle [(1, 1, [(3, 1, 1, 0)]), (1, 3, [(1, 5, 0, 1)]), (3, 3, [(3, 5, 0, 1)])]
                 (sconst 0)))
         (factor_ramificacion 1) = []"
    by (simp add: shuffle3_sconst bifurcaciones_elegidas_take producto_3_en_1)
  show "round (doble (doble 3 * factor_ramificacion 1)) = 1"
    by (simp add: producto_3_en_1 round_def)
qed

text \<open>
  C5 (amended): for every complexity, every candidate list and every stream, the
  second stage processes exactly the first \<open>int(len(candidates) * branch_factor)\<close>
  candidates of the shuffled list, where \<open>branch_factor = min(0.3, complexity * 0.4)\<close>
  and both products are the binary64 products the source computes: the count is the
  floor of the last product, not its rounding, and it never exceeds the number of
  candidates.
\<close>

theorem C5_agregar_complejidad_trunca:
  "agregar_complejidad F C m visitadas bifurcaciones (factor_ramificacion complejidad) g =
     procesar_bifurcaciones F C
       (take (nat \<lfloor>doble (doble (real (length bifurcaciones))
                            * min (doble (3 / 10)) (doble (complejidad * doble (4 / 10))))\<rfloor>)
          (fst (shuffle bifurcaciones g)))
       m visitadas (snd (shuffle bifurcaciones g))
   \<and> \<lfloor>doble (doble (real (length bifurcaciones))
                * min (doble (3 / 10)) (doble (complejidad * doble (4 / 10))))\<rfloor>
       \<le> int (length bifurcaciones)"
proof
  show "agregar_complejidad F C m visitadas bifurcaciones (factor_ramificacion complejidad) g =
     procesar_bifurcaciones F C
       (take (nat \<lfloor>doble (doble (real (length bifurcaciones))
                            * min (doble (3 / 10)) (doble (complejidad * doble (4 / 10))))\<rfloor>)
          (fst (shuffle bifurcaciones g)))
       m visitadas (snd (shuffle bifurcaciones g))"
    by (simp add: agregar_complejidad_def case_prod_unfold bifurcaciones_elegidas_take
        factor_ramificacion_def)
  show "\<lfloor>doble (doble (real (length bifurcaciones))
                * min (doble (3 / 10)) (doble (complejidad * doble (4 / 10))))\<rfloor>
       \<le> int (length bifurcaciones)"
    using producto_cota [OF factor_ramificacion_cota, of "length bifurcaciones" complejidad]
    by (simp add: factor_ramificacion_def)
qed

text \<open>With 25 candidates and complexity 0.7 that is 6 of them: the product of the
  doubles is 6.999999999999999, that of the real numbers 7.\<close>

theorem C5_agregar_complejidad_trunca_testigo:
  "agregar_complejidad 15 15 (\<lambda>c. 1) {} (replicate 25 ((1, 1, []) :: bifurcacion))
       (factor_ramificacion (doble (7 / 10))) (sconst 0) =
     procesar_bifurcaciones 15 15
       (take 6 (fst (shuffle (replicate 25 ((1, 1, []) :: bifurcacion)) (sconst 0))))
       (\<lambda>c. 1) {} (snd (shuffle (replicate 25 ((1, 1, []) :: bifurcacion)) (sconst 0)))"
proof -
  have n: "\<lfloor>doble (doble (real (length (replicate 25 ((1, 1, []) :: bifurcacion))))
                 * min (doble (3 / 10)) (doble (doble (7 / 10) * doble (4 / 10))))\<rfloor> = 6"
    unfolding length_replicate of_nat_numeral factor_ramificacion_def [symmetric]
      producto_25_en_0_7
    by simp
  show ?thesis
    using C5_agregar_complejidad_trunca [of 15 15 "\<lambda>c. 1" "{}"
        "replicate 25 ((1, 1, []) :: bifurcacion)" "doble (7 / 10)" "sconst 0"]
    unfolding n by simp
qed

section \<open>Further properties of a generated maze\<close>

text \<open>
  The start of every generated maze is the cell \<open>(1, 1)\<close>; start and goal coincide
  exactly on the 3 x 3 grid; every cell of the matrix is 0 or 1.
\<close>

theorem inicio_y_meta_generados:
  assumes "3 \<le> F" "3 \<le> C"
  shows "\<exists>L. nuevo_laberinto F C complejidad densidad g = Inr L
             \<and> inicio L = (1, 1) \<and> (inicio L = meta L \<longleftrightarrow> F = 3 \<and> C = 3)"
proof -
  obtain L m ini met g' where L: "generar F C complejidad densidad g = Inr L"
    "antes_de_garantizar F C complejidad densidad g = Inr (m, ini, met, g')"
    "L = \<lparr>filas = F, columnas = C, matriz = garantizar_solucion F C m ini met g',
           inicio = ini, meta = met\<rparr>"
    using assms by (rule generar_listo)
  have "ini = (1, 1) \<and> (ini = met \<longleftrightarrow> F = 3 \<and> C = 3)"
    using L(2)
  proof (rule antes_de_garantizar_Inr)
    fix m3 assume h: "abierto F C m3" "establecer_inicio_meta F C m3 = (m, ini, met)"
    show ?thesis
      using establecer_inicio_esquina [OF assms h] establecer_distintos [OF assms h] by blast
  qed
  moreover have "inicio L = ini" "meta L = met"
    using L(3) by simp_all
  ultimately have "inicio L = (1, 1) \<and> (inicio L = meta L \<longleftrightarrow> F = 3 \<and> C = 3)"
    by metis
  moreover have "nuevo_laberinto F C complejidad densidad g = Inr L"
    using L(1) assms by (simp add: nuevo_laberinto_generar)
  ultimately show ?thesis by blast
qed

theorem inicio_y_meta_generados_testigo:
  "(3 :: int) \<le> 5 \<and> (3 :: int) \<le> 7
   \<and> (\<exists>L. nuevo_laberinto 5 7 (1 / 2) (1 / 2) (sconst 0) = Inr L
             \<and> inicio L = (1, 1) \<and> (inicio L = meta L \<longleftrightarrow> (5 :: int) = 3 \<and> (7 :: int) = 3))"
proof -
  have h1: "(3 :: int) \<le> 5" and h2: "(3 :: int) \<le> 7" by simp_all
  show ?thesis
    by (intro conjI) (rule h1, rule h2, rule inicio_y_meta_generados [OF h1 h2])
qed

theorem celdas_cero_o_uno:
  assumes "3 \<le> F" "3 \<le> C"
  shows "\<exists>L. nuevo_laberinto F C complejidad densidad g = Inr L
             \<and> (\<forall>c. matriz L c = 0 \<or> matriz L c = 1)"
proof -
  obtain L m ini met g' where L: "generar F C complejidad densidad g = Inr L"
    "listo F C (matriz L) (inicio L) (meta L)"
    using assms by (rule generar_listo)
  have "matriz L c = 0 \<or> matriz L c = 1" for c
  proof -
    have "matriz L c \<le> 1" using L(2) unfolding listo_def by blast
    then show ?thesis by auto
  qed
  then show ?thesis
    using L(1) assms by (simp add: nuevo_laberinto_generar del: split_paired_All)
qed

theorem celdas_cero_o_uno_testigo:
  "(3 :: int) \<le> 5 \<and> (3 :: int) \<le> 7
   \<and> (\<exists>L. nuevo_laberinto 5 7 (1 / 2) (1 / 2) (sconst 0) = Inr L
             \<and> (\<forall>c. matriz L c = 0 \<or> matriz L c = 1))"
proof -
  have h1: "(3 :: int) \<le> 5" and h2: "(3 :: int) \<le> 7" by simp_all
  show ?thesis
    by (intro conjI) (rule h1, rule h2, rule celdas_cero_o_uno [OF h1 h2])
qed

text \<open>
  With \<open>rows < 3\<close> or \<open>cols < 3\<close> the constructor raises \<^verbatim>\<open>ValueError\<close>, from
  \<^verbatim>\<open>np.zeros\<close> on a negative dimension or from \<^verbatim>\<open>random.randrange\<close> on the empty
  range of origins, and returns no maze.
\<close>

theorem dimensiones_invalidas:
  assumes "F < 3 \<or> C < 3"
  shows "nuevo_laberinto F C complejidad densidad g = Inl ValueError"
proof -
  have "antes_de_garantizar F C complejidad densidad g = Inl ValueError"
    using assms by (simp add: antes_de_garantizar_Inl)
  then have "generar F C complejidad densidad g = Inl ValueError"
    by (simp add: generar_por_etapas)
  then show ?thesis
    by (simp add: nuevo_laberinto_def)
qed

theorem dimensiones_invalidas_testigo:
  "((2 :: int) < 3 \<or> (5 :: int) < 3)
   \<and> nuevo_laberinto 2 5 (1 / 2) (1 / 2) (sconst 0) = Inl ValueError"
proof -
  have h: "(2 :: int) < 3 \<or> (5 :: int) < 3" by simp
  show ?thesis
    by (intro conjI) (rule h, rule dimensiones_invalidas [OF h])
qed

text \<open>
  When the interpreter allows at least \<open>rows * cols\<close> nested calls of the search, the
  search raises nothing and \<^verbatim>\<open>_garantizar_solucion\<close> returns what the search without
  a limit returns.
\<close>

theorem marcos_suficientes:
  assumes "en_rango F C ini" "F * C \<le> int limite"
  shows "garantizar_solucion_limitado F C m ini met g limite
           = Inr (garantizar_solucion F C m ini met g)"
  using assms by (rule garantizar_solucion_limitado_suficiente)

theorem marcos_suficientes_testigo:
  "en_rango 5 7 (1, 1) \<and> (5 :: int) * 7 \<le> int 35
   \<and> garantizar_solucion_limitado 5 7 (\<lambda>c. 1) (1, 1) (3, 5) (sconst 0) 35
       = Inr (garantizar_solucion 5 7 (\<lambda>c. 1) (1, 1) (3, 5) (sconst 0))"
proof -
  have h1: "en_rango 5 7 (1, 1)" by (simp add: en_rango_def)
  have h2: "(5 :: int) * 7 \<le> int 35" by simp
  show ?thesis
    by (intro conjI) (rule h1, rule h2, rule marcos_suficientes [OF h1 h2])
qed

end
